theory Spec2Isabelle
  imports Main
begin

section \<open>Run-time types, as \<open>reflect\<close> shows them to \<open>SetInput\<close>\<close>

text \<open>
  A \<open>reflect.Type\<close> is a handle on a type descriptor of the Go runtime. The descriptors
  form a graph, not a tree: \<open>type P *P\<close> is legal Go, and its descriptor points to itself.
  So a type is a handle (\<open>rtype\<close>), and the descriptors are a table from handles to what
  \<open>Kind\<close>, \<open>Elem\<close>, \<open>NumField\<close> and \<open>Field\<close> answer.
\<close>

type_synonym rtype = nat

datatype error = Error string

text \<open>How a call ends other than by returning: a Go panic, or \<open>log.Fatalln\<close> (exit 1).\<close>

datatype failure = Panic string | Fatal error

datatype plain =
    KInvalid | KBool | KInt | KInt8 | KInt16 | KInt32 | KInt64
  | KUint | KUint8 | KUint16 | KUint32 | KUint64 | KUintptr
  | KFloat32 | KFloat64 | KComplex64 | KComplex128
  | KArray | KChan | KFunc | KInterface | KMap | KSlice | KString | KUnsafePointer

datatype kind = Ptr | Struct | Plain plain

text \<open>
  A struct tag is kept parsed, as the list of its \<open>key:"value"\<close> pairs; \<open>Tag.Get\<close> answers
  the first value under the key, and the empty string when the key is absent.
\<close>

record StructField =
  Name :: string
  Type :: rtype
  Tag :: "(string \<times> string) list"

datatype descr = PtrTo rtype | StructOf "StructField list" | PlainType plain

type_synonym types = "rtype \<Rightarrow> descr"

fun Kind :: "descr \<Rightarrow> kind" where
  "Kind (PtrTo u) = Ptr"
| "Kind (StructOf fs) = Struct"
| "Kind (PlainType k) = Plain k"

fun Get :: "(string \<times> string) list \<Rightarrow> string \<Rightarrow> string" where
  "Get [] key = []"
| "Get ((k, v) # tag) key = (if k = key then v else Get tag key)"

section \<open>The operation builder\<close>

text \<open>
  \<open>openapi3.Operation\<close>, the fields this file reads or writes. Parameters and request body
  are what the generator returns; the generator is not part of these sources and stays
  a parameter.
\<close>

record ('p, 'b) Operation =
  OperationID :: string
  Parameters :: "'p option"
  RequestBody :: "'b option"
  Responses :: "(string \<times> string) list option"

text \<open>
  A handler of the route: the binding pipeline of this operation (\<open>op.bindInput()\<close>), or
  one the caller supplied.
\<close>

datatype 'h handler = BindInput | User 'h

record ('p, 'b, 'h) OperationBuilder =
  input :: "rtype option"
  inputBody :: "rtype option"
  operation :: "('p, 'b) Operation"
  path :: string
  "method" :: string
  inputBodyMediaType :: string
  inputBodyField :: string
  handlers :: "'h handler list"

text \<open>
  The generator (\<open>op.soda.generator\<close>): \<open>GenerateParameters\<close> and \<open>GenerateRequestBody\<close>
  add schemas to the document \<open>'d\<close> they own and return the fragment.
\<close>

record ('d, 'p, 'b) generator =
  GenerateParameters :: "'d \<Rightarrow> rtype \<Rightarrow> 'p \<times> 'd"
  GenerateRequestBody :: "'d \<Rightarrow> string \<Rightarrow> string \<Rightarrow> rtype option \<Rightarrow> 'b \<times> 'd"

text \<open>
  \<open>Soda\<close>, shared by every builder: the document under construction
  (\<open>soda.generator.spec\<close>), the router, and the struct validator, which may be nil.
  A validator, like every call that is handed the pointer to the input, returns an error
  or leaves the input in some state.
\<close>

record ('d, 'f, 'v) Soda =
  spec :: 'd
  Fiber :: 'f
  validator :: "('v \<Rightarrow> error + 'v) option"

subsection \<open>SetInput\<close>

text \<open>
  \<open>for inputType.Kind() == reflect.Ptr { inputType = inputType.Elem() }\<close>. On a pointer
  type that points back to itself the loop never ends: the result is \<open>None\<close>.
\<close>

partial_function (option) indirect :: "types \<Rightarrow> rtype \<Rightarrow> rtype option" where
  "indirect ts t = (case ts t of PtrTo u \<Rightarrow> indirect ts u | StructOf fs \<Rightarrow> Some t | PlainType k \<Rightarrow> Some t)"

text \<open>
  The loop over the fields: the first field whose \<open>body\<close> tag is not empty sets the three
  body fields of the builder, and \<open>break\<close> leaves the loop.
\<close>

fun bodyField :: "StructField list \<Rightarrow> ('p, 'b, 'h) OperationBuilder \<Rightarrow> ('p, 'b, 'h) OperationBuilder" where
  "bodyField [] b = b"
| "bodyField (body # fs) b =
     (if Get (Tag body) ''body'' \<noteq> ''''
      then b\<lparr>inputBody := Some (Type body),
             inputBodyMediaType := Get (Tag body) ''body'',
             inputBodyField := Name body\<rparr>
      else bodyField fs b)"

text \<open>
  \<open>SetInput\<close>. \<open>reflect.TypeOf\<close> of a nil interface is nil, and \<open>Kind\<close> on it is a nil
  dereference. The result is the builder and \<open>Soda\<close>, whose document the generator has written to.
\<close>

definition SetInput ::
  "types \<Rightarrow> ('d, 'p, 'b) generator \<Rightarrow> ('d, 'f, 'v) Soda \<Rightarrow> ('p, 'b, 'h) OperationBuilder \<Rightarrow> rtype option
     \<Rightarrow> (failure + ('p, 'b, 'h) OperationBuilder \<times> ('d, 'f, 'v) Soda) option" where
  "SetInput ts g soda b inp =
     (case inp of
        None \<Rightarrow> Some (Inl (Panic ''invalid memory address or nil pointer dereference''))
      | Some t0 \<Rightarrow>
          (case indirect ts t0 of
             None \<Rightarrow> None
           | Some inputType \<Rightarrow>
               (case ts inputType of
                  StructOf fs \<Rightarrow>
                    (let b1 = bodyField fs (b\<lparr>input := Some inputType\<rparr>);
                         (ps, d1) = GenerateParameters g (spec soda) inputType;
                         b2 = b1\<lparr>operation := (operation b1)\<lparr>Parameters := Some ps\<rparr>\<rparr>
                     in if inputBodyField b2 \<noteq> ''''
                        then (let (rb, d2) = GenerateRequestBody g d1 (OperationID (operation b2))
                                               (inputBodyMediaType b2) (inputBody b2)
                              in Some (Inr (b2\<lparr>operation := (operation b2)\<lparr>RequestBody := Some rb\<rparr>\<rparr>,
                                            soda\<lparr>spec := d2\<rparr>)))
                        else Some (Inr (b2, soda\<lparr>spec := d1\<rparr>)))
                | PtrTo u \<Rightarrow> Some (Inl (Panic ''input must be a pointer to a struct''))
                | PlainType k \<Rightarrow> Some (Inl (Panic ''input must be a pointer to a struct'')))))"

subsection \<open>OK\<close>

text \<open>
  What \<open>OK\<close> asks of the document library and of the router: the two checks of
  \<open>kin-openapi\<close>, \<open>AddOperation\<close>, and \<open>Fiber.Add\<close>. \<open>fixPath\<close> is a function of this
  repository that these sources do not hold.
\<close>

record ('d, 'f, 'p, 'b, 'h) registrar =
  ValidateOperation :: "('p, 'b) Operation \<Rightarrow> error option"
  AddOperation :: "'d \<Rightarrow> string \<Rightarrow> string \<Rightarrow> ('p, 'b) Operation \<Rightarrow> 'd"
  ValidateSpec :: "'d \<Rightarrow> error option"
  Add :: "'f \<Rightarrow> string \<Rightarrow> string \<Rightarrow> 'h handler list \<Rightarrow> 'f"
  fixPath :: "string \<Rightarrow> string"

text \<open>\<open>AddResponse(0, ...)\<close> files the response under \<open>default\<close>.\<close>

definition AddResponse :: "('p, 'b) Operation \<Rightarrow> string \<Rightarrow> string \<Rightarrow> ('p, 'b) Operation" where
  "AddResponse opn code desc =
     opn\<lparr>Responses := Some ((case Responses opn of None \<Rightarrow> [] | Some rs \<Rightarrow> rs) @ [(code, desc)])\<rparr>"

text \<open>\<open>if op.operation.Responses == nil\<close>: the default response.\<close>

definition withDefaultResponse :: "('p, 'b) Operation \<Rightarrow> ('p, 'b) Operation" where
  "withDefaultResponse opn =
     (if Responses opn = None then AddResponse opn ''default'' ''OK'' else opn)"

text \<open>\<open>log.Fatalln\<close> prints the error and exits: nothing after it runs.\<close>

definition OK ::
  "('d, 'f, 'p, 'b, 'h) registrar \<Rightarrow> ('d, 'f, 'v) Soda \<Rightarrow> ('p, 'b, 'h) OperationBuilder
     \<Rightarrow> failure + ('p, 'b, 'h) OperationBuilder \<times> ('d, 'f, 'v) Soda" where
  "OK r soda b =
     (let opn = withDefaultResponse (operation b)
      in case ValidateOperation r opn of
           Some err \<Rightarrow> Inl (Fatal err)
         | None \<Rightarrow>
             (let d1 = AddOperation r (spec soda) (fixPath r (path b)) (method b) opn
              in case ValidateSpec r d1 of
                   Some err \<Rightarrow> Inl (Fatal err)
                 | None \<Rightarrow>
                     (let hs = BindInput # handlers b
                      in Inr (b\<lparr>operation := opn, handlers := hs\<rparr>,
                              soda\<lparr>spec := d1, Fiber := Add r (Fiber soda) (method b) (path b) hs\<rparr>))))"

section \<open>The binding pipeline\<close>

subsection \<open>The request context\<close>

type_synonym ck = string

definition KeyInput :: ck where
  "KeyInput = ''soda::input''"

text \<open>
  The steps of the pipeline that are handed the input and can return an error: the
  parameter parsers by their index in \<open>parameterParsers\<close>, \<open>c.BodyParser\<close>,
  \<open>validator.Struct\<close>, \<open>Validate()\<close> and \<open>Validate(ctx)\<close>.
\<close>

datatype stage = Parameter nat | Body | Structural | SelfValidate | SelfValidateCtx

text \<open>
  What the pre-handler does to the world outside it, one entry per call, in the order
  of the calls: the two \<open>reflect.New\<close> (for the input and for the body) with the type and
  the fresh value; a stage with the value it was handed and what it returned; the
  assignment \<open>reflect.ValueOf(input).Elem().FieldByName(name).Set(x)\<close> with the input,
  the field, the value assigned and the input after it; a panic; \<open>c.Locals(key, v)\<close>;
  and \<open>c.Next()\<close>.
\<close>

datatype 'v event =
    NewInput rtype 'v
  | NewBody rtype 'v
  | Ran stage 'v "error + 'v"
  | Assign 'v string 'v 'v
  | Panics string
  | Store ck 'v
  | Proceed

text \<open>
  \<open>fiber.Ctx\<close>: the request, which the pipeline only reads; the request-scoped store
  behind \<open>c.Locals\<close>; and the journal of the calls made so far.
\<close>

record ('r, 'v) Ctx =
  request :: 'r
  Locals :: "ck \<rightharpoonup> 'v"
  calls :: "'v event list"

definition journal :: "'v event \<Rightarrow> ('r, 'v) Ctx \<Rightarrow> ('r, 'v) Ctx" where
  "journal ev c = c\<lparr>calls := calls c @ [ev]\<rparr>"

text \<open>
  What the pipeline calls and these sources do not define. \<open>New\<close> is \<open>reflect.New\<close>
  followed by \<open>Interface()\<close>; \<open>parameterParsers\<close> is the package's list of parsers;
  \<open>FieldSet v name x\<close> is \<open>reflect.ValueOf(v).Elem().FieldByName(name).Set(x)\<close>, which
  panics (\<open>None\<close>) when \<open>reflect\<close> refuses the assignment; \<open>customizeValidate\<close> and
  \<open>customizeValidateCtx\<close> answer the two type assertions on a pointer to the given type,
  with the method when the assertion holds; \<open>Next\<close> is \<open>c.Next()\<close>, the rest of the chain.
\<close>

record ('r, 'v) host =
  New :: "rtype \<Rightarrow> 'v"
  parameterParsers :: "('r \<Rightarrow> 'v \<Rightarrow> error + 'v) list"
  BodyParser :: "'r \<Rightarrow> 'v \<Rightarrow> error + 'v"
  FieldSet :: "'v \<Rightarrow> string \<Rightarrow> 'v \<Rightarrow> 'v option"
  customizeValidate :: "rtype \<Rightarrow> ('v \<Rightarrow> error + 'v) option"
  customizeValidateCtx :: "rtype \<Rightarrow> ('r \<Rightarrow> 'v \<Rightarrow> error + 'v) option"
  Next :: "('r, 'v) Ctx \<Rightarrow> error option"

text \<open>How the handler ends: it panics, or it returns nil or an error.\<close>

type_synonym outcome = "failure + error option"

subsection \<open>bindInput\<close>

text \<open>The call of one stage, entered in the journal with its argument and its answer.\<close>

definition run :: "stage \<Rightarrow> ('v \<Rightarrow> error + 'v) \<Rightarrow> 'v \<Rightarrow> ('r, 'v) Ctx \<Rightarrow> (error + 'v) \<times> ('r, 'v) Ctx" where
  "run st f v c = (f v, journal (Ran st v (f v)) c)"

text \<open>
  \<open>for _, parser := range parameterParsers\<close>: each parser in turn on the same input; the
  first error leaves the loop and the handler.
\<close>

fun parseParameters ::
  "('r \<Rightarrow> 'v \<Rightarrow> error + 'v) list \<Rightarrow> nat \<Rightarrow> 'v \<Rightarrow> ('r, 'v) Ctx \<Rightarrow> (error + 'v) \<times> ('r, 'v) Ctx" where
  "parseParameters [] i v c = (Inr v, c)"
| "parseParameters (parser # ps) i v c =
     (case run (Parameter i) (parser (request c)) v c of
        (Inl err, c1) \<Rightarrow> (Inl err, c1)
      | (Inr v1, c1) \<Rightarrow> parseParameters ps (Suc i) v1 c1)"

text \<open>
  \<open>if op.inputBodyField != ""\<close>: a fresh value of the body type, \<open>c.BodyParser\<close> on it,
  and the assignment to the field of that name. \<open>Inl\<close> is the handler's way out (the
  error returned, or a panic of \<open>reflect\<close>), \<open>Inr\<close> the input to go on with.
\<close>

definition parseBody ::
  "('r, 'v) host \<Rightarrow> ('p, 'b, 'h) OperationBuilder \<Rightarrow> 'v \<Rightarrow> ('r, 'v) Ctx \<Rightarrow> (outcome + 'v) \<times> ('r, 'v) Ctx" where
  "parseBody h b v c =
     (if inputBodyField b \<noteq> ''''
      then (case inputBody b of
              None \<Rightarrow> (Inl (Inl (Panic ''reflect: New(nil)'')), journal (Panics ''reflect: New(nil)'') c)
            | Some bt \<Rightarrow>
                (let body = New h bt;
                     c1 = journal (NewBody bt body) c
                 in case run Body (BodyParser h (request c)) body c1 of
                      (Inl err, c2) \<Rightarrow> (Inl (Inr (Some err)), c2)
                    | (Inr body1, c2) \<Rightarrow>
                        (case FieldSet h v (inputBodyField b) body1 of
                           None \<Rightarrow> (Inl (Inl (Panic ''reflect: Set'')), journal (Panics ''reflect: Set'') c2)
                         | Some v1 \<Rightarrow> (Inr v1, journal (Assign v (inputBodyField b) body1 v1) c2))))
      else (Inr v, c))"

text \<open>\<open>if op.soda.validator != nil\<close>.\<close>

definition validateStruct ::
  "('d, 'f, 'v) Soda \<Rightarrow> 'v \<Rightarrow> ('r, 'v) Ctx \<Rightarrow> (error + 'v) \<times> ('r, 'v) Ctx" where
  "validateStruct soda v c =
     (case validator soda of
        None \<Rightarrow> (Inr v, c)
      | Some structValidate \<Rightarrow> run Structural structValidate v c)"

text \<open>\<open>if v, ok := input.(customizeValidate); ok\<close>, on a pointer to the type \<open>t\<close>.\<close>

definition validate :: "('r, 'v) host \<Rightarrow> rtype \<Rightarrow> 'v \<Rightarrow> ('r, 'v) Ctx \<Rightarrow> (error + 'v) \<times> ('r, 'v) Ctx" where
  "validate h t v c =
     (case customizeValidate h t of
        None \<Rightarrow> (Inr v, c)
      | Some Validate \<Rightarrow> run SelfValidate Validate v c)"

text \<open>\<open>if v, ok := input.(customizeValidateCtx); ok\<close>, with \<open>c.Context()\<close>.\<close>

definition validateCtx :: "('r, 'v) host \<Rightarrow> rtype \<Rightarrow> 'v \<Rightarrow> ('r, 'v) Ctx \<Rightarrow> (error + 'v) \<times> ('r, 'v) Ctx" where
  "validateCtx h t v c =
     (case customizeValidateCtx h t of
        None \<Rightarrow> (Inr v, c)
      | Some Validate \<Rightarrow> run SelfValidateCtx (Validate (request c)) v c)"

text \<open>\<open>return c.Next()\<close>: what the rest of the chain does is not the pre-handler's.\<close>

definition callNext :: "('r, 'v) host \<Rightarrow> ('r, 'v) Ctx \<Rightarrow> outcome \<times> ('r, 'v) Ctx" where
  "callNext h c = (let c1 = journal Proceed c in (Inr (Next h c1), c1))"

text \<open>
  The handler that \<open>bindInput\<close> returns, on one request. The result is how the handler
  ends and the context as the pre-handler leaves it.
\<close>

definition bindInput ::
  "('r, 'v) host \<Rightarrow> ('d, 'f, 'v) Soda \<Rightarrow> ('p, 'b, 'h) OperationBuilder \<Rightarrow> ('r, 'v) Ctx
     \<Rightarrow> outcome \<times> ('r, 'v) Ctx" where
  "bindInput h soda b c =
     (case input b of
        None \<Rightarrow> callNext h c
      | Some t \<Rightarrow>
          (let inp = New h t;
               c0 = journal (NewInput t inp) c
           in case parseParameters (parameterParsers h) 0 inp c0 of
                (Inl err, c1) \<Rightarrow> (Inr (Some err), c1)
              | (Inr inp1, c1) \<Rightarrow>
                  (case parseBody h b inp1 c1 of
                     (Inl out, c2) \<Rightarrow> (out, c2)
                   | (Inr inp2, c2) \<Rightarrow>
                       (case validateStruct soda inp2 c2 of
                          (Inl err, c3) \<Rightarrow> (Inr (Some err), c3)
                        | (Inr inp3, c3) \<Rightarrow>
                            (case validate h t inp3 c3 of
                               (Inl err, c4) \<Rightarrow> (Inr (Some err), c4)
                             | (Inr inp4, c4) \<Rightarrow>
                                 (case validateCtx h t inp4 c4 of
                                    (Inl err, c5) \<Rightarrow> (Inr (Some err), c5)
                                  | (Inr inp5, c5) \<Rightarrow>
                                      callNext h (journal (Store KeyInput inp5)
                                                 (c5\<lparr>Locals := (Locals c5)(KeyInput \<mapsto> inp5)\<rparr>))))))))"

section \<open>Schema names\<close>

text \<open>
  \<open>regexSchemaName = regexp.MustCompile(`[^a-zA-Z0-9._-]`)\<close>: one character class,
  negated. A class is a list of ranges and single characters; a \<open>-\<close> at its end stands
  for itself.
\<close>

datatype item = Range char char | Single char

datatype charclass = Class "item list" | NegClass "item list"

fun inItem :: "item \<Rightarrow> char \<Rightarrow> bool" where
  "inItem (Range lo hi) c = ((of_char lo :: nat) \<le> of_char c \<and> (of_char c :: nat) \<le> of_char hi)"
| "inItem (Single x) c = (c = x)"

fun inItems :: "item list \<Rightarrow> char \<Rightarrow> bool" where
  "inItems [] c = False"
| "inItems (i # is) c = (inItem i c \<or> inItems is c)"

fun matches :: "charclass \<Rightarrow> char \<Rightarrow> bool" where
  "matches (Class is) c = inItems is c"
| "matches (NegClass is) c = (\<not> inItems is c)"

definition regexSchemaName :: charclass where
  "regexSchemaName =
     NegClass [Range CHR ''a'' CHR ''z'', Range CHR ''A'' CHR ''Z'', Range CHR ''0'' CHR ''9'',
               Single CHR ''.'', Single CHR ''_'', Single CHR ''-'']"

text \<open>
  \<open>ReplaceAllString\<close> for a pattern that is one character class: every match is one
  character, and each is replaced. A Go string is bytes and the pattern is matched on
  runes; every byte of a rune outside ASCII is outside the six items above, so on bytes
  the negated class takes the whole rune.
\<close>

fun ReplaceAllString :: "charclass \<Rightarrow> string \<Rightarrow> string \<Rightarrow> string" where
  "ReplaceAllString re [] repl = []"
| "ReplaceAllString re (c # src) repl =
     (if matches re c then repl @ ReplaceAllString re src repl
      else c # ReplaceAllString re src repl)"

text \<open>
  Modelled from the spec: the function that turns a type's declared name into the
  schema's name is not in these sources, only its pattern is. The spec: a sanitized
  version of the type's declared name, the non-alphanumeric characters other than
  \<open>.\<close>, \<open>_\<close>, \<open>-\<close> stripped.
\<close>

definition schemaName :: "string \<Rightarrow> string" where
  "schemaName name = ReplaceAllString regexSchemaName name ''''"

text \<open>The characters a schema name may hold, one by one.\<close>

definition allowed :: "char \<Rightarrow> bool" where
  "allowed c \<longleftrightarrow>
     c \<in> set ''abcdefghijklmnopqrstuvwxyzABCDEFGHIJKLMNOPQRSTUVWXYZ0123456789._-''"

section \<open>Notions the properties are stated with\<close>

text \<open>\<open>follow ts n t\<close>: the type \<open>n\<close> pointer levels below \<open>t\<close>, when there are that many.\<close>

fun follow :: "types \<Rightarrow> nat \<Rightarrow> rtype \<Rightarrow> rtype option" where
  "follow ts 0 t = Some t"
| "follow ts (Suc n) t =
     (case ts t of PtrTo u \<Rightarrow> follow ts n u | StructOf fs \<Rightarrow> None | PlainType k \<Rightarrow> None)"

text \<open>A field that carries a body marker: its \<open>body\<close> tag is not empty.\<close>

definition bodyMarked :: "StructField \<Rightarrow> bool" where
  "bodyMarked f \<longleftrightarrow> Get (Tag f) ''body'' \<noteq> ''''"

text \<open>An entry of the journal that records an error returned, or a panic.\<close>

fun failed :: "'v event \<Rightarrow> bool" where
  "failed (Ran st v (Inl err)) = True"
| "failed (Panics msg) = True"
| "failed ev = False"

text \<open>An entry of the journal that records a call of the given stage.\<close>

fun ranStage :: "stage \<Rightarrow> 'v event \<Rightarrow> bool" where
  "ranStage st (Ran st' v r) = (st' = st)"
| "ranStage st ev = False"

fun isStore :: "'v event \<Rightarrow> bool" where
  "isStore (Store k v) = True"
| "isStore ev = False"

fun isParameter :: "'v event \<Rightarrow> bool" where
  "isParameter (Ran (Parameter i) v r) = True"
| "isParameter ev = False"

section \<open>The pipeline as the specification describes it\<close>

text \<open>
  The specification describes the binding pipeline as a fixed sequence of stages, each
  working on the input the stage before it left, the whole ending at the first stage
  that fails. This section writes that description down, apart from the request
  context: a segment takes the input and gives the entries it adds to the journal and
  either the way out of the handler or the input for the next segment. The pre-handler
  of the source is compared with it below.
\<close>

type_synonym 'v segment = "'v \<Rightarrow> 'v event list \<times> (outcome + 'v)"

definition seq :: "'v segment \<Rightarrow> 'v segment \<Rightarrow> 'v segment" where
  "seq s1 s2 v =
     (case s1 v of
        (evs1, Inl out) \<Rightarrow> (evs1, Inl out)
      | (evs1, Inr v1) \<Rightarrow> (case s2 v1 of (evs2, r) \<Rightarrow> (evs1 @ evs2, r)))"

text \<open>A stage that is always there, and one that is there when its capability is.\<close>

definition stageSeg :: "stage \<Rightarrow> ('v \<Rightarrow> error + 'v) \<Rightarrow> 'v segment" where
  "stageSeg st f v =
     ([Ran st v (f v)], case f v of Inl err \<Rightarrow> Inl (Inr (Some err)) | Inr v1 \<Rightarrow> Inr v1)"

definition gateSeg :: "stage \<Rightarrow> ('v \<Rightarrow> error + 'v) option \<Rightarrow> 'v segment" where
  "gateSeg st g v = (case g of None \<Rightarrow> ([], Inr v) | Some f \<Rightarrow> stageSeg st f v)"

text \<open>The parameter parsers, in the order of the list, numbered from \<open>i\<close>.\<close>

fun parserEvents :: "('r \<Rightarrow> 'v \<Rightarrow> error + 'v) list \<Rightarrow> 'r \<Rightarrow> nat \<Rightarrow> 'v \<Rightarrow> 'v event list" where
  "parserEvents [] q i v = []"
| "parserEvents (parser # ps) q i v =
     Ran (Parameter i) v (parser q v) #
       (case parser q v of Inl err \<Rightarrow> [] | Inr v1 \<Rightarrow> parserEvents ps q (Suc i) v1)"

fun parserResult :: "('r \<Rightarrow> 'v \<Rightarrow> error + 'v) list \<Rightarrow> 'r \<Rightarrow> 'v \<Rightarrow> error + 'v" where
  "parserResult [] q v = Inr v"
| "parserResult (parser # ps) q v =
     (case parser q v of Inl err \<Rightarrow> Inl err | Inr v1 \<Rightarrow> parserResult ps q v1)"

definition parserSeg :: "('r \<Rightarrow> 'v \<Rightarrow> error + 'v) list \<Rightarrow> 'r \<Rightarrow> 'v segment" where
  "parserSeg ps q v =
     (parserEvents ps q 0 v,
      case parserResult ps q v of Inl err \<Rightarrow> Inl (Inr (Some err)) | Inr v1 \<Rightarrow> Inr v1)"

text \<open>The body binder: nothing without a body field.\<close>

definition bodySeg :: "('r, 'v) host \<Rightarrow> ('p, 'b, 'h) OperationBuilder \<Rightarrow> 'r \<Rightarrow> 'v segment" where
  "bodySeg h b q v =
     (if inputBodyField b = '''' then ([], Inr v)
      else case inputBody b of
             None \<Rightarrow> ([Panics ''reflect: New(nil)''], Inl (Inl (Panic ''reflect: New(nil)'')))
           | Some bt \<Rightarrow>
               (case BodyParser h q (New h bt) of
                  Inl err \<Rightarrow>
                    ([NewBody bt (New h bt), Ran Body (New h bt) (Inl err)], Inl (Inr (Some err)))
                | Inr x \<Rightarrow>
                    (case FieldSet h v (inputBodyField b) x of
                       None \<Rightarrow>
                         ([NewBody bt (New h bt), Ran Body (New h bt) (Inr x), Panics ''reflect: Set''],
                          Inl (Inl (Panic ''reflect: Set'')))
                     | Some v1 \<Rightarrow>
                         ([NewBody bt (New h bt), Ran Body (New h bt) (Inr x),
                           Assign v (inputBodyField b) x v1],
                          Inr v1))))"

text \<open>
  Binding (parameters, then body), then the validation gate: the struct validator, the
  context-free hook, the context-aware hook.
\<close>

definition binding :: "('r, 'v) host \<Rightarrow> ('p, 'b, 'h) OperationBuilder \<Rightarrow> 'r \<Rightarrow> 'v segment" where
  "binding h b q = seq (parserSeg (parameterParsers h) q) (bodySeg h b q)"

definition checked :: "('r, 'v) host \<Rightarrow> ('d, 'f, 'v) Soda \<Rightarrow> ('p, 'b, 'h) OperationBuilder \<Rightarrow> 'r \<Rightarrow> 'v segment" where
  "checked h soda b q = seq (binding h b q) (gateSeg Structural (validator soda))"

definition selfChecked ::
  "('r, 'v) host \<Rightarrow> ('d, 'f, 'v) Soda \<Rightarrow> ('p, 'b, 'h) OperationBuilder \<Rightarrow> 'r \<Rightarrow> rtype \<Rightarrow> 'v segment" where
  "selfChecked h soda b q t = seq (checked h soda b q) (gateSeg SelfValidate (customizeValidate h t))"

definition pipeline ::
  "('r, 'v) host \<Rightarrow> ('d, 'f, 'v) Soda \<Rightarrow> ('p, 'b, 'h) OperationBuilder \<Rightarrow> 'r \<Rightarrow> rtype \<Rightarrow> 'v segment" where
  "pipeline h soda b q t =
     seq (selfChecked h soda b q t)
       (gateSeg SelfValidateCtx (map_option (\<lambda>g. g q) (customizeValidateCtx h t)))"

text \<open>
  The pre-handler as the specification has it: without an Input Definition it only
  passes control on; with one, it allocates the input, runs the pipeline, and on
  success publishes the input under the key and passes control on.
\<close>

definition preHandler ::
  "('r, 'v) host \<Rightarrow> ('d, 'f, 'v) Soda \<Rightarrow> ('p, 'b, 'h) OperationBuilder \<Rightarrow> ('r, 'v) Ctx
     \<Rightarrow> outcome \<times> ('r, 'v) Ctx" where
  "preHandler h soda b c =
     (case input b of
        None \<Rightarrow> (Inr (Next h (c\<lparr>calls := calls c @ [Proceed]\<rparr>)), c\<lparr>calls := calls c @ [Proceed]\<rparr>)
      | Some t \<Rightarrow>
          (case pipeline h soda b (request c) t (New h t) of
             (evs, Inl out) \<Rightarrow> (out, c\<lparr>calls := calls c @ NewInput t (New h t) # evs\<rparr>)
           | (evs, Inr v) \<Rightarrow>
               (Inr (Next h (c\<lparr>Locals := (Locals c)(KeyInput \<mapsto> v),
                                calls := calls c @ NewInput t (New h t) # evs @ [Store KeyInput v, Proceed]\<rparr>)),
                c\<lparr>Locals := (Locals c)(KeyInput \<mapsto> v),
                  calls := calls c @ NewInput t (New h t) # evs @ [Store KeyInput v, Proceed]\<rparr>)))"

subsection \<open>The order of the journal\<close>

text \<open>
  The place of an entry in the pipeline: the allocation of the input, the parameter
  parsers, the allocation of the body, its decoding, its assignment (or the panic in
  its place), the struct validator, the two hooks, the store, the passing on.
\<close>

fun phase :: "'v event \<Rightarrow> nat" where
  "phase (NewInput t v) = 0"
| "phase (Ran (Parameter i) v r) = 1"
| "phase (NewBody t v) = 2"
| "phase (Ran Body v r) = 3"
| "phase (Assign v name x v1) = 4"
| "phase (Panics msg) = 4"
| "phase (Ran Structural v r) = 5"
| "phase (Ran SelfValidate v r) = 6"
| "phase (Ran SelfValidateCtx v r) = 7"
| "phase (Store k v) = 8"
| "phase Proceed = 9"

fun parserIndex :: "'v event \<Rightarrow> nat" where
  "parserIndex (Ran (Parameter i) v r) = i"
| "parserIndex ev = 0"

text \<open>An entry comes before another: an earlier place, or an earlier parser.\<close>

definition before :: "'v event \<Rightarrow> 'v event \<Rightarrow> bool" where
  "before x y \<longleftrightarrow>
     phase x < phase y \<or> (phase x = 1 \<and> phase y = 1 \<and> parserIndex x < parserIndex y)"

subsection \<open>The input along the journal\<close>

text \<open>
  The input an entry leaves behind (an allocation, a stage that returned nil, an
  assignment), the input an entry is handed (a stage, an assignment, the store), and the input after
  a run of entries that started with \<open>cur\<close>. The body parser works on the body, not on
  the input.
\<close>

fun leaves :: "'v event \<Rightarrow> 'v option" where
  "leaves (NewInput t v) = Some v"
| "leaves (Ran Body v r) = None"
| "leaves (Ran st v (Inr v1)) = Some v1"
| "leaves (Assign v name x v1) = Some v1"
| "leaves ev = None"

fun takes :: "'v event \<Rightarrow> 'v option" where
  "takes (Ran Body v r) = None"
| "takes (Ran st v r) = Some v"
| "takes (Assign v name x v1) = Some v"
| "takes (Store k v) = Some v"
| "takes ev = None"

fun instanceFrom :: "'v \<Rightarrow> 'v event list \<Rightarrow> 'v" where
  "instanceFrom cur [] = cur"
| "instanceFrom cur (ev # evs) = instanceFrom (case leaves ev of None \<Rightarrow> cur | Some v1 \<Rightarrow> v1) evs"

text \<open>Every entry is handed the input that the entries before it left.\<close>

fun flows :: "'v \<Rightarrow> 'v event list \<Rightarrow> bool" where
  "flows cur [] = True"
| "flows cur (ev # evs) =
     ((case takes ev of None \<Rightarrow> True | Some v \<Rightarrow> v = cur)
      \<and> flows (case leaves ev of None \<Rightarrow> cur | Some v1 \<Rightarrow> v1) evs)"

text \<open>How the handler ends on an entry that failed.\<close>

fun outcomeOf :: "'v event \<Rightarrow> outcome" where
  "outcomeOf (Ran st v (Inl err)) = Inr (Some err)"
| "outcomeOf (Panics msg) = Inl (Panic msg)"
| "outcomeOf ev = Inr None"

text \<open>
  An entry says what happened: the call it records was due (the builder and the
  capabilities make it so), and the answer it records is the answer of the call.
\<close>

fun honest ::
  "('r, 'v) host \<Rightarrow> ('d, 'f, 'v) Soda \<Rightarrow> ('p, 'b, 'h) OperationBuilder \<Rightarrow> 'r \<Rightarrow> 'v event \<Rightarrow> bool" where
  "honest h soda b q (NewInput t v) = (input b = Some t \<and> v = New h t)"
| "honest h soda b q (NewBody t v) = (inputBodyField b \<noteq> '''' \<and> inputBody b = Some t \<and> v = New h t)"
| "honest h soda b q (Ran (Parameter i) v r) =
     (i < length (parameterParsers h) \<and> r = (parameterParsers h ! i) q v)"
| "honest h soda b q (Ran Body v r) =
     (inputBodyField b \<noteq> '''' \<and> r = BodyParser h q v \<and> map_option (New h) (inputBody b) = Some v)"
| "honest h soda b q (Ran Structural v r) = (map_option (\<lambda>f. f v) (validator soda) = Some r)"
| "honest h soda b q (Ran SelfValidate v r) =
     (case input b of None \<Rightarrow> False
      | Some t \<Rightarrow> map_option (\<lambda>f. f v) (customizeValidate h t) = Some r)"
| "honest h soda b q (Ran SelfValidateCtx v r) =
     (case input b of None \<Rightarrow> False
      | Some t \<Rightarrow> map_option (\<lambda>g. g q v) (customizeValidateCtx h t) = Some r)"
| "honest h soda b q (Assign v name x v1) =
     (name = inputBodyField b \<and> name \<noteq> ''''
      \<and> map_option (\<lambda>bt. BodyParser h q (New h bt)) (inputBody b) = Some (Inr x)
      \<and> FieldSet h v name x = Some v1)"
| "honest h soda b q (Panics msg) = (inputBodyField b \<noteq> '''')"
| "honest h soda b q (Store k v) = (k = KeyInput)"
| "honest h soda b q Proceed = True"


subsection \<open>What every segment keeps\<close>

text \<open>
  A segment is sound between two places when, on every input, its entries lie between
  those places and are in order, no entry but the last has failed, every entry is
  handed the input the entries before it left, and the result is the way out that the
  failed last entry gives, or the input that the entries leave when none has failed.
\<close>

definition sound :: "nat \<Rightarrow> nat \<Rightarrow> 'v segment \<Rightarrow> bool" where
  "sound lo hi s \<longleftrightarrow>
     (\<forall>v. case s v of
        (evs, r) \<Rightarrow>
          (\<forall>x\<in>set evs. lo \<le> phase x \<and> phase x \<le> hi)
          \<and> sorted_wrt before evs
          \<and> (\<forall>x\<in>set (butlast evs). \<not> failed x)
          \<and> flows v evs
          \<and> (case r of
               Inl out \<Rightarrow> evs \<noteq> [] \<and> failed (last evs) \<and> out = outcomeOf (last evs)
             | Inr v1 \<Rightarrow> (\<forall>x\<in>set evs. \<not> failed x) \<and> v1 = instanceFrom v evs))"

section \<open>A small service, to run the definitions on\<close>

text \<open>
  The types of a service with one route. Type 1 is the input of scenario B of the
  specification, a query parameter and a JSON body; type 0 points to it. Type 4 is
  \<open>type P *P\<close>. Type 5 is an input with two fields marked as body. Type 7 is an input
  with one required query parameter and no body (scenario A).
\<close>

definition exampleTypes :: types where
  "exampleTypes = (\<lambda>t. PlainType KString)
     (0 := PtrTo 1,
      1 := StructOf [\<lparr>Name = ''Name'', Type = 2, Tag = [(''query'', ''name'')]\<rparr>,
                     \<lparr>Name = ''Body'', Type = 3, Tag = [(''body'', ''json'')]\<rparr>],
      3 := StructOf [\<lparr>Name = ''Email'', Type = 2, Tag = [(''json'', ''email'')]\<rparr>],
      4 := PtrTo 4,
      5 := StructOf [\<lparr>Name = ''First'', Type = 3, Tag = [(''body'', ''json'')]\<rparr>,
                     \<lparr>Name = ''Second'', Type = 3, Tag = [(''body'', ''xml'')]\<rparr>],
      6 := PlainType KInt,
      7 := StructOf [\<lparr>Name = ''Page'', Type = 6, Tag = [(''query'', ''page''), (''required'', ''true'')]\<rparr>])"

text \<open>A generator that returns the type as the fragment and leaves the document alone.\<close>

definition exampleGenerator :: "(string list, rtype, string \<times> rtype option) generator" where
  "exampleGenerator =
     \<lparr>GenerateParameters = (\<lambda>d t. (t, d)),
      GenerateRequestBody = (\<lambda>d opid mediaType t. ((mediaType, t), d))\<rparr>"

text \<open>
  Values are lists of named fields; the document is the list of its operations; the
  router is the list of its routes.
\<close>

type_synonym val = "(string \<times> string) list"

type_synonym router = "(string \<times> string \<times> nat handler list) list"

definition exampleSoda :: "(string list, router, val) Soda" where
  "exampleSoda = \<lparr>spec = [], Fiber = [], validator = None\<rparr>"

definition newOperation :: "(rtype, string \<times> rtype option, nat) OperationBuilder" where
  "newOperation =
     \<lparr>input = None, inputBody = None,
      operation = \<lparr>OperationID = ''createUser'', Parameters = None, RequestBody = None,
                   Responses = None\<rparr>,
      path = ''/users'', method = ''POST'', inputBodyMediaType = '''', inputBodyField = '''',
      handlers = [User 0]\<rparr>"

declare indirect.simps [code]

text \<open>
  A document library that refuses an operation without an id and a document with the
  same operation twice, and a router that keeps its routes in a list.
\<close>

definition exampleRegistrar :: "(string list, router, rtype, string \<times> rtype option, nat) registrar" where
  "exampleRegistrar =
     \<lparr>ValidateOperation =
        (\<lambda>opn. if OperationID opn = '''' then Some (Error ''operationId is empty'') else None),
      AddOperation = (\<lambda>d p m opn. d @ [m @ '' '' @ p]),
      ValidateSpec = (\<lambda>d. if distinct d then None else Some (Error ''duplicate operation'')),
      Add = (\<lambda>f m p hs. f @ [(m, p, hs)]),
      fixPath = (\<lambda>p. p)\<rparr>"

definition unnamedOperation :: "(rtype, string \<times> rtype option, nat) OperationBuilder" where
  "unnamedOperation = newOperation\<lparr>operation := (operation newOperation)\<lparr>OperationID := ''''\<rparr>\<rparr>"

definition registered :: "(rtype, string \<times> rtype option, nat) OperationBuilder" where
  "registered =
     newOperation\<lparr>operation := (operation newOperation)\<lparr>Responses := Some [(''default'', ''OK'')]\<rparr>,
                  handlers := [BindInput, User 0]\<rparr>"

text \<open>
  A request is its query parameters and its payload. The query parser binds \<open>name\<close>,
  which is required; the body parser refuses an empty payload; \<open>reflect\<close> knows the field
  \<open>Body\<close>. The input type 1 has both hooks: the first refuses the name \<open>root\<close>.
\<close>

type_synonym req = "(string \<times> string) list \<times> string"

definition queryParser :: "req \<Rightarrow> val \<Rightarrow> error + val" where
  "queryParser q v =
     (case map_of (fst q) ''name'' of
        None \<Rightarrow> Inl (Error ''name is required'')
      | Some x \<Rightarrow> Inr (v @ [(''Name'', x)]))"

definition jsonParser :: "req \<Rightarrow> val \<Rightarrow> error + val" where
  "jsonParser q x = (if snd q = '''' then Inl (Error ''unexpected end of JSON input'')
                     else Inr (x @ [(''Email'', snd q)]))"

definition setField :: "val \<Rightarrow> string \<Rightarrow> val \<Rightarrow> val option" where
  "setField v name x = (if name = ''Body'' then Some (v @ [(name, concat (map snd x))]) else None)"

definition notRoot :: "val \<Rightarrow> error + val" where
  "notRoot v = (if map_of v ''Name'' = Some ''root'' then Inl (Error ''reserved name'') else Inr v)"

definition exampleHost :: "(req, val) host" where
  "exampleHost =
     \<lparr>New = (\<lambda>t. []),
      parameterParsers = [queryParser],
      BodyParser = jsonParser,
      FieldSet = setField,
      customizeValidate = (\<lambda>t. if t = 1 then Some notRoot else None),
      customizeValidateCtx = (\<lambda>t. if t = 1 then Some (\<lambda>q v. Inr v) else None),
      Next = (\<lambda>c. None)\<rparr>"

definition shortName :: "val \<Rightarrow> error + val" where
  "shortName v = (if map_of v ''Name'' = Some '''' then Inl (Error ''Name: min'') else Inr v)"

definition validatingSoda :: "(string list, router, val) Soda" where
  "validatingSoda = exampleSoda\<lparr>validator := Some shortName\<rparr>"

text \<open>The builder as \<open>SetInput\<close> leaves it for the input type 0.\<close>

definition createUser :: "(rtype, string \<times> rtype option, nat) OperationBuilder" where
  "createUser =
     newOperation\<lparr>input := Some 1, inputBody := Some 3,
                  operation := (operation newOperation)
                    \<lparr>Parameters := Some 1, RequestBody := Some (''json'', Some 3)\<rparr>,
                  inputBodyMediaType := ''json'', inputBodyField := ''Body''\<rparr>"

definition fresh :: "req \<Rightarrow> (req, val) Ctx" where
  "fresh q = \<lparr>request = q, Locals = Map.empty, calls = []\<rparr>"

definition alice :: req where
  "alice = ([(''name'', ''alice'')], ''a@b.com'')"

definition aliceInput :: val where
  "aliceInput = [(''Name'', ''alice''), (''Body'', ''a@b.com'')]"

definition aliceJournal :: "val event list" where
  "aliceJournal =
     [NewInput 1 [],
      Ran (Parameter 0) [] (Inr [(''Name'', ''alice'')]),
      NewBody 3 [],
      Ran Body [] (Inr [(''Email'', ''a@b.com'')]),
      Assign [(''Name'', ''alice'')] ''Body'' [(''Email'', ''a@b.com'')] aliceInput,
      Ran Structural aliceInput (Inr aliceInput),
      Ran SelfValidate aliceInput (Inr aliceInput),
      Ran SelfValidateCtx aliceInput (Inr aliceInput),
      Store KeyInput aliceInput,
      Proceed]"







section \<open>Properties of SetInput\<close>

lemma indirect_follow:
  "follow ts n t = Some u \<Longrightarrow> Kind (ts u) \<noteq> Ptr \<Longrightarrow> indirect ts t = Some u"
proof (induction n arbitrary: t)
  case 0
  then show ?case by (subst indirect.simps) (cases "ts u"; simp)
next
  case (Suc n)
  then show ?case by (subst indirect.simps) (cases "ts t"; simp)
qed




lemma bodyField_first:
  "\<forall>g\<in>set pre. \<not> bodyMarked g \<Longrightarrow> bodyMarked f \<Longrightarrow>
   bodyField (pre @ f # post) b =
     b\<lparr>inputBody := Some (Type f), inputBodyMediaType := Get (Tag f) ''body'',
       inputBodyField := Name f\<rparr>"
  by (induction pre) (auto simp: bodyMarked_def)






text \<open>
  C2, as the code has it. An input type with two fields marked as body is accepted:
  the first one becomes the body field, and \<open>SetInput\<close> returns the builder.
\<close>

theorem SetInput_two_body_fields:
  "exampleTypes 5 = StructOf [\<lparr>Name = ''First'', Type = 3, Tag = [(''body'', ''json'')]\<rparr>,
                              \<lparr>Name = ''Second'', Type = 3, Tag = [(''body'', ''xml'')]\<rparr>]
   \<and> length (filter bodyMarked [\<lparr>Name = ''First'', Type = 3, Tag = [(''body'', ''json'')]\<rparr>,
                                 \<lparr>Name = ''Second'', Type = 3, Tag = [(''body'', ''xml'')]\<rparr>]) = 2
   \<and> SetInput exampleTypes exampleGenerator exampleSoda newOperation (Some 5) =
       Some (Inr (newOperation\<lparr>input := Some 5, inputBody := Some 3,
                    operation := (operation newOperation)
                      \<lparr>Parameters := Some 5, RequestBody := Some (''json'', Some 3)\<rparr>,
                    inputBodyMediaType := ''json'', inputBodyField := ''First''\<rparr>,
                  exampleSoda))"
  by (simp add: SetInput_def exampleTypes_def indirect.simps bodyMarked_def
        exampleGenerator_def newOperation_def exampleSoda_def)

text \<open>
  C2, amended. \<open>SetInput\<close> does not count the fields marked as body. When the input
  type is, some pointer levels down, a struct in which \<open>f\<close> is the first field with a body
  marker, \<open>SetInput\<close> returns the builder with \<open>f\<close> as the body field (its name, its
  type, its media type), whatever markers the fields after \<open>f\<close> carry.
\<close>

theorem SetInput_first_body_field:
  assumes "follow ts n t = Some u" and "ts u = StructOf (pre @ f # post)"
    and "\<forall>g\<in>set pre. \<not> bodyMarked g" and "bodyMarked f"
  shows "\<exists>b' soda'. SetInput ts g soda b (Some t) = Some (Inr (b', soda'))
           \<and> inputBodyField b' = Name f \<and> inputBody b' = Some (Type f)
           \<and> inputBodyMediaType b' = Get (Tag f) ''body''"
proof -
  have "indirect ts t = Some u"
    using assms(1,2) by (intro indirect_follow) simp_all
  then show ?thesis
    using assms(2)
    by (auto simp: SetInput_def Let_def bodyField_first [OF assms(3,4)] split: prod.splits)
qed

theorem SetInput_first_body_field_witness:
  "\<exists>b' soda'. SetInput exampleTypes exampleGenerator exampleSoda newOperation (Some 0)
                 = Some (Inr (b', soda'))
     \<and> inputBodyField b' = ''Body'' \<and> inputBody b' = Some 3 \<and> inputBodyMediaType b' = ''json''"
  using SetInput_first_body_field [of exampleTypes 1 0 1
          "[\<lparr>Name = ''Name'', Type = 2, Tag = [(''query'', ''name'')]\<rparr>]"
          "\<lparr>Name = ''Body'', Type = 3, Tag = [(''body'', ''json'')]\<rparr>" "[]"
          exampleGenerator exampleSoda newOperation]
  by (simp add: exampleTypes_def bodyMarked_def)

section \<open>Properties of OK\<close>

text \<open>
  C3. With \<open>opn\<close> the operation after the default response and \<open>d1\<close> the document after
  \<open>AddOperation\<close>: when the check of the operation fails, \<open>OK\<close> ends the process with that
  error, whatever the check of the document would say (the operation is checked first);
  when it passes and the check of the document fails, \<open>OK\<close> ends the process with that
  error; when both pass, the route is added to the router with the binding pipeline as
  the first handler, before every handler of the caller. And \<open>OK\<close> returns, with a route
  added, only when both checks have passed.
\<close>

theorem OK_checks_then_route:
  assumes "opn = withDefaultResponse (operation b)"
    and "d1 = AddOperation r (spec soda) (fixPath r (path b)) (method b) opn"
  shows "(ValidateOperation r opn = Some err \<longrightarrow> OK r soda b = Inl (Fatal err))
     \<and> (ValidateOperation r opn = None \<longrightarrow> ValidateSpec r d1 = Some err \<longrightarrow>
          OK r soda b = Inl (Fatal err))
     \<and> (ValidateOperation r opn = None \<longrightarrow> ValidateSpec r d1 = None \<longrightarrow>
          OK r soda b =
            Inr (b\<lparr>operation := opn, handlers := BindInput # handlers b\<rparr>,
                 soda\<lparr>spec := d1,
                      Fiber := Add r (Fiber soda) (method b) (path b) (BindInput # handlers b)\<rparr>))
     \<and> (OK r soda b = Inr (b', soda') \<longrightarrow>
          ValidateOperation r opn = None \<and> ValidateSpec r d1 = None
          \<and> handlers b' = BindInput # handlers b
          \<and> Fiber soda' = Add r (Fiber soda) (method b) (path b) (handlers b'))"
  using assms by (auto simp: OK_def Let_def split: option.splits)

theorem OK_checks_then_route_witness:
  "OK exampleRegistrar exampleSoda unnamedOperation = Inl (Fatal (Error ''operationId is empty''))
   \<and> OK exampleRegistrar (exampleSoda\<lparr>spec := [''POST /users'']\<rparr>) newOperation
     = Inl (Fatal (Error ''duplicate operation''))
   \<and> OK exampleRegistrar exampleSoda newOperation
     = Inr (registered,
            exampleSoda\<lparr>spec := [''POST /users''],
                        Fiber := [(''POST'', ''/users'', [BindInput, User 0])]\<rparr>)"
  using OK_checks_then_route [of _ unnamedOperation _ exampleRegistrar exampleSoda
           "Error ''operationId is empty''", OF refl refl]
        OK_checks_then_route [of _ newOperation _ exampleRegistrar
           "exampleSoda\<lparr>spec := [''POST /users'']\<rparr>" "Error ''duplicate operation''", OF refl refl]
        OK_checks_then_route [of _ newOperation _ exampleRegistrar exampleSoda, OF refl refl]
  by (simp add: exampleRegistrar_def newOperation_def exampleSoda_def withDefaultResponse_def
        AddResponse_def registered_def unnamedOperation_def)

section \<open>Properties of the schema name\<close>

text \<open>The pattern's class, item by item, is the list of the allowed characters.\<close>

lemma allowed_codes:
  "map of_char ''abcdefghijklmnopqrstuvwxyzABCDEFGHIJKLMNOPQRSTUVWXYZ0123456789._-''
     = ([97..<123] @ [65..<91] @ [48..<58] @ [46, 95, 45] :: nat list)"
  by code_simp

lemma allowed_nat:
  "allowed c \<longleftrightarrow> (97 \<le> (of_char c :: nat) \<and> (of_char c :: nat) < 123)
      \<or> (65 \<le> (of_char c :: nat) \<and> (of_char c :: nat) < 91)
      \<or> (48 \<le> (of_char c :: nat) \<and> (of_char c :: nat) < 58)
      \<or> (of_char c :: nat) = 46 \<or> (of_char c :: nat) = 95 \<or> (of_char c :: nat) = 45"
proof -
  have inj: "inj (of_char :: char \<Rightarrow> nat)"
    by (rule injI) simp
  have "allowed c \<longleftrightarrow>
      (of_char c :: nat) \<in> set (map of_char ''abcdefghijklmnopqrstuvwxyzABCDEFGHIJKLMNOPQRSTUVWXYZ0123456789._-'')"
    unfolding allowed_def set_map by (rule inj_image_mem_iff [OF inj, symmetric])
  also have "\<dots> \<longleftrightarrow> (of_char c :: nat) \<in> set ([97..<123] @ [65..<91] @ [48..<58] @ [46, 95, 45])"
    by (simp only: allowed_codes)
  also have "\<dots> \<longleftrightarrow> (97 \<le> (of_char c :: nat) \<and> (of_char c :: nat) < 123)
      \<or> (65 \<le> (of_char c :: nat) \<and> (of_char c :: nat) < 91)
      \<or> (48 \<le> (of_char c :: nat) \<and> (of_char c :: nat) < 58)
      \<or> (of_char c :: nat) = 46 \<or> (of_char c :: nat) = 95 \<or> (of_char c :: nat) = 45"
    by (simp only: set_append set_upt Un_iff atLeastLessThan_iff list.set insert_iff empty_iff
          disj_assoc simp_thms)
  finally show ?thesis .
qed


lemma inItems_schema:
  "inItems [Range CHR ''a'' CHR ''z'', Range CHR ''A'' CHR ''Z'', Range CHR ''0'' CHR ''9'',
            Single CHR ''.'', Single CHR ''_'', Single CHR ''-''] c \<longleftrightarrow> allowed c"
proof -
  have single: "c = d \<longleftrightarrow> (of_char c :: nat) = of_char d" for d
    by simp
  have "inItems [Range CHR ''a'' CHR ''z'', Range CHR ''A'' CHR ''Z'', Range CHR ''0'' CHR ''9'',
            Single CHR ''.'', Single CHR ''_'', Single CHR ''-''] c \<longleftrightarrow>
      (97 \<le> (of_char c :: nat) \<and> (of_char c :: nat) \<le> 122)
      \<or> (65 \<le> (of_char c :: nat) \<and> (of_char c :: nat) \<le> 90)
      \<or> (48 \<le> (of_char c :: nat) \<and> (of_char c :: nat) \<le> 57)
      \<or> (of_char c :: nat) = 46 \<or> (of_char c :: nat) = 95 \<or> (of_char c :: nat) = 45"
    by (simp add: single [of "CHR ''.''"] single [of "CHR ''_''"] single [of "CHR ''-''"]
          del: of_char_eq_iff)
  also have "\<dots> \<longleftrightarrow> allowed c"
    unfolding allowed_nat by linarith
  finally show ?thesis .
qed

lemma matches_schema: "matches regexSchemaName c \<longleftrightarrow> \<not> allowed c"
  unfolding regexSchemaName_def by (simp only: matches.simps inItems_schema)

lemma sanitize_filter: "ReplaceAllString regexSchemaName s [] = filter allowed s"
  by (induction s) (simp_all add: matches_schema)

text \<open>
  C9. The schema name is the declared name without the characters that are neither
  alphanumeric nor one of \<open>.\<close>, \<open>_\<close>, \<open>-\<close>: it is the declared name filtered by
  \<open>allowed\<close>, so every allowed character is kept, in order, and every character of the
  result is allowed.
\<close>

theorem schemaName_keeps_allowed:
  "schemaName name = filter allowed name \<and> list_all allowed (schemaName name)"
  by (simp add: schemaName_def sanitize_filter list_all_iff)

lemma schemaName_example: "schemaName ''main.Create User*Request[T]'' = ''main.CreateUserRequestT''"
  by (simp add: schemaName_def regexSchemaName_def)

section \<open>The pre-handler of the source and the pipeline of the specification\<close>

lemma journal_simps [simp]:
  "calls (journal ev c) = calls c @ [ev]"
  "request (journal ev c) = request c"
  "Locals (journal ev c) = Locals c"
  by (simp_all add: journal_def)

lemma parseParameters_eq:
  "parseParameters ps i v c =
     (parserResult ps (request c) v, c\<lparr>calls := calls c @ parserEvents ps (request c) i v\<rparr>)"
proof (induction ps arbitrary: i v c)
  case Nil
  show ?case by simp
next
  case (Cons p ps)
  show ?case
    by (cases "p (request c) v") (simp_all add: run_def journal_def Cons.IH)
qed

lemma parseParameters_seg:
  "parseParameters ps 0 v c =
     (case parserSeg ps (request c) v of
        (evs, r) \<Rightarrow> (parserResult ps (request c) v, c\<lparr>calls := calls c @ evs\<rparr>))"
  by (simp add: parseParameters_eq parserSeg_def)

lemma parseBody_seg:
  "parseBody h b v c =
     (case bodySeg h b (request c) v of (evs, r) \<Rightarrow> (r, c\<lparr>calls := calls c @ evs\<rparr>))"
  by (simp add: parseBody_def bodySeg_def run_def journal_def Let_def
        split: option.splits sum.splits)

lemma stage_seg:
  "run st f v c =
     (f v, c\<lparr>calls := calls c @ fst (stageSeg st f v)\<rparr>)"
  by (simp add: run_def stageSeg_def journal_def)

lemma validateStruct_seg:
  "validateStruct soda v c =
     (case validator soda of None \<Rightarrow> Inr v | Some f \<Rightarrow> f v,
      c\<lparr>calls := calls c @ fst (gateSeg Structural (validator soda) v)\<rparr>)"
  by (simp add: validateStruct_def gateSeg_def stage_seg split: option.splits)

lemma validate_seg:
  "validate h t v c =
     (case customizeValidate h t of None \<Rightarrow> Inr v | Some f \<Rightarrow> f v,
      c\<lparr>calls := calls c @ fst (gateSeg SelfValidate (customizeValidate h t) v)\<rparr>)"
  by (simp add: validate_def gateSeg_def stage_seg split: option.splits)

lemma validateCtx_seg:
  "validateCtx h t v c =
     (case customizeValidateCtx h t of None \<Rightarrow> Inr v | Some g \<Rightarrow> g (request c) v,
      c\<lparr>calls := calls c @
          fst (gateSeg SelfValidateCtx (map_option (\<lambda>g. g (request c)) (customizeValidateCtx h t)) v)\<rparr>)"
  by (simp add: validateCtx_def gateSeg_def stage_seg split: option.splits)

text \<open>
  The pre-handler of the source is the pre-handler of the specification: same way out,
  same context, same journal.
\<close>

lemma bindInput_preHandler: "bindInput h soda b c = preHandler h soda b c"
  unfolding bindInput_def preHandler_def pipeline_def selfChecked_def checked_def binding_def
    parseParameters_seg parseBody_seg validateStruct_seg validate_seg validateCtx_seg
    callNext_def Let_def
  by (auto simp: seq_def gateSeg_def stageSeg_def parserSeg_def journal_def
        split: option.splits sum.splits prod.splits)

subsection \<open>Sound segments\<close>

lemma soundD:
  assumes "sound lo hi s" and "s v = (evs, r)"
  shows "\<forall>x\<in>set evs. lo \<le> phase x \<and> phase x \<le> hi"
    and "sorted_wrt before evs"
    and "\<forall>x\<in>set (butlast evs). \<not> failed x"
    and "flows v evs"
    and "\<And>out. r = Inl out \<Longrightarrow> evs \<noteq> [] \<and> failed (last evs) \<and> out = outcomeOf (last evs)"
    and "\<And>v1. r = Inr v1 \<Longrightarrow> (\<forall>x\<in>set evs. \<not> failed x) \<and> v1 = instanceFrom v evs"
  using assms unfolding sound_def by (auto split: prod.splits sum.splits dest!: spec [of _ v])

lemma instanceFrom_append:
  "instanceFrom cur (xs @ ys) = instanceFrom (instanceFrom cur xs) ys"
  by (induction xs arbitrary: cur) simp_all

lemma flows_append:
  "flows cur (xs @ ys) \<longleftrightarrow> flows cur xs \<and> flows (instanceFrom cur xs) ys"
  by (induction xs arbitrary: cur) auto

lemma before_phase: "phase x < phase y \<Longrightarrow> before x y"
  by (simp add: before_def)

lemma sound_seq:
  assumes s1: "sound lo1 hi1 s1" and s2: "sound lo2 hi2 s2"
    and order: "hi1 < lo2" "lo1 \<le> lo2" "hi1 \<le> hi2"
  shows "sound lo1 hi2 (seq s1 s2)"
  unfolding sound_def
proof (intro allI)
  fix v
  obtain e1 r1 where r1: "s1 v = (e1, r1)" by (cases "s1 v")
  note f1 = soundD [OF s1 r1]
  show "case seq s1 s2 v of
        (evs, r) \<Rightarrow>
          (\<forall>x\<in>set evs. lo1 \<le> phase x \<and> phase x \<le> hi2)
          \<and> sorted_wrt before evs
          \<and> (\<forall>x\<in>set (butlast evs). \<not> failed x)
          \<and> flows v evs
          \<and> (case r of
               Inl out \<Rightarrow> evs \<noteq> [] \<and> failed (last evs) \<and> out = outcomeOf (last evs)
             | Inr v1 \<Rightarrow> (\<forall>x\<in>set evs. \<not> failed x) \<and> v1 = instanceFrom v evs)"
  proof (cases r1)
    case (Inl out)
    with r1 have "seq s1 s2 v = (e1, Inl out)" by (simp add: seq_def)
    with f1 Inl order show ?thesis by fastforce
  next
    case (Inr v1)
    obtain e2 r2 where r2: "s2 v1 = (e2, r2)" by (cases "s2 v1")
    note f2 = soundD [OF s2 r2]
    from r1 r2 Inr have eq: "seq s1 s2 v = (e1 @ e2, r2)" by (simp add: seq_def)
    have ok1: "\<forall>x\<in>set e1. \<not> failed x" and v1: "v1 = instanceFrom v e1"
      using f1(6) [OF Inr] by simp_all
    have band: "\<forall>x\<in>set (e1 @ e2). lo1 \<le> phase x \<and> phase x \<le> hi2"
      using f1(1) f2(1) order by fastforce
    have sorted: "sorted_wrt before (e1 @ e2)"
      unfolding sorted_wrt_append
    proof (intro conjI ballI)
      fix x y assume "x \<in> set e1" "y \<in> set e2"
      with f1(1) f2(1) order have "phase x < phase y" by fastforce
      then show "before x y" by (rule before_phase)
    qed (rule f1(2), rule f2(2))
    have butl: "\<forall>x\<in>set (butlast (e1 @ e2)). \<not> failed x"
      using ok1 f2(3) by (auto simp: butlast_append dest: in_set_butlastD)
    have fl: "flows v (e1 @ e2)"
      using f1(4) f2(4) v1 by (simp add: flows_append)
    have res: "case r2 of
               Inl out \<Rightarrow> e1 @ e2 \<noteq> [] \<and> failed (last (e1 @ e2)) \<and> out = outcomeOf (last (e1 @ e2))
             | Inr v2 \<Rightarrow> (\<forall>x\<in>set (e1 @ e2). \<not> failed x) \<and> v2 = instanceFrom v (e1 @ e2)"
    proof (cases r2)
      case (Inl out)
      with f2(5) [OF Inl] show ?thesis by simp
    next
      case (Inr v2)
      with f2(6) [OF Inr] ok1 v1 show ?thesis by (auto simp: instanceFrom_append)
    qed
    show ?thesis unfolding eq using band sorted butl fl res by simp
  qed
qed

lemma sound_structural: "sound 5 5 (gateSeg Structural g)"
  by (auto simp: sound_def gateSeg_def stageSeg_def split: option.splits sum.splits)

lemma sound_validate: "sound 6 6 (gateSeg SelfValidate g)"
  by (auto simp: sound_def gateSeg_def stageSeg_def split: option.splits sum.splits)

lemma sound_validateCtx: "sound 7 7 (gateSeg SelfValidateCtx g)"
  by (auto simp: sound_def gateSeg_def stageSeg_def split: option.splits sum.splits)

lemma sound_body: "sound 2 4 (bodySeg h b q)"
  by (auto simp: sound_def bodySeg_def before_def split: option.splits sum.splits)

lemma parserEvents_band: "\<forall>x\<in>set (parserEvents ps q i v). phase x = 1 \<and> i \<le> parserIndex x"
  by (induction ps arbitrary: i v) (fastforce split: sum.splits)+

lemma parserEvents_sorted: "sorted_wrt before (parserEvents ps q i v)"
proof (induction ps arbitrary: i v)
  case Nil
  show ?case by simp
next
  case (Cons p ps)
  show ?case
  proof (cases "p q v")
    case (Inl e)
    then show ?thesis by simp
  next
    case (Inr v1)
    have "\<forall>y\<in>set (parserEvents ps q (Suc i) v1). before (Ran (Parameter i) v (Inr v1)) y"
      using parserEvents_band [of ps q "Suc i" v1] by (auto simp: before_def)
    with Inr Cons.IH [of "Suc i" v1] show ?thesis by simp
  qed
qed

lemma parserEvents_butlast_ok: "\<forall>x\<in>set (butlast (parserEvents ps q i v)). \<not> failed x"
  by (induction ps arbitrary: i v) (auto split: sum.splits)

lemma parserEvents_flows: "flows v (parserEvents ps q i v)"
  by (induction ps arbitrary: i v) (auto split: sum.splits)

lemma parserEvents_Inl:
  "parserResult ps q v = Inl e \<Longrightarrow>
     parserEvents ps q i v \<noteq> [] \<and> failed (last (parserEvents ps q i v))
     \<and> outcomeOf (last (parserEvents ps q i v)) = Inr (Some e)"
  by (induction ps arbitrary: i v) (auto split: sum.splits)

lemma parserEvents_Inr:
  "parserResult ps q v = Inr w \<Longrightarrow>
     (\<forall>x\<in>set (parserEvents ps q i v). \<not> failed x) \<and> w = instanceFrom v (parserEvents ps q i v)"
  by (induction ps arbitrary: i v) (auto split: sum.splits)

lemma sound_parser: "sound 1 1 (parserSeg ps q)"
  unfolding sound_def parserSeg_def
  using parserEvents_band [of ps q 0] parserEvents_sorted [of ps q 0]
    parserEvents_butlast_ok [of ps q 0] parserEvents_flows [of _ ps q 0]
    parserEvents_Inl [of ps q _ _ 0] parserEvents_Inr [of ps q _ _ 0]
  by (auto split: sum.splits)

lemma sound_binding: "sound 1 4 (binding h b q)"
  unfolding binding_def by (rule sound_seq [OF sound_parser sound_body]) simp_all

lemma sound_checked: "sound 1 5 (checked h soda b q)"
  unfolding checked_def by (rule sound_seq [OF sound_binding sound_structural]) simp_all

lemma sound_selfChecked: "sound 1 6 (selfChecked h soda b q t)"
  unfolding selfChecked_def by (rule sound_seq [OF sound_checked sound_validate]) simp_all

lemma sound_pipeline: "sound 1 7 (pipeline h soda b q t)"
  unfolding pipeline_def by (rule sound_seq [OF sound_selfChecked sound_validateCtx]) simp_all

subsection \<open>Honest entries\<close>

lemma parserEvents_honest:
  "x \<in> set (parserEvents ps q i v) \<Longrightarrow>
     \<exists>j u. j < length ps \<and> x = Ran (Parameter (i + j)) u ((ps ! j) q u)"
proof (induction ps arbitrary: i v)
  case Nil
  then show ?case by simp
next
  case (Cons p ps)
  from Cons.prems consider "x = Ran (Parameter i) v (p q v)"
    | v1 where "p q v = Inr v1" "x \<in> set (parserEvents ps q (Suc i) v1)"
    by (cases "p q v") auto
  then show ?case
  proof cases
    case 1
    then have "0 < length (p # ps) \<and> x = Ran (Parameter (i + 0)) v (((p # ps) ! 0) q v)" by simp
    then show ?thesis by blast
  next
    case 2
    from Cons.IH [OF 2(2)] obtain j u
      where "j < length ps" "x = Ran (Parameter (Suc i + j)) u ((ps ! j) q u)" by blast
    then have "Suc j < length (p # ps) \<and> x = Ran (Parameter (i + Suc j)) u (((p # ps) ! Suc j) q u)"
      by simp
    then show ?thesis by blast
  qed
qed

lemma seq_events:
  "x \<in> set (fst (seq s1 s2 v)) \<Longrightarrow>
     x \<in> set (fst (s1 v)) \<or> (\<exists>v1. x \<in> set (fst (s2 v1)))"
  by (auto simp: seq_def split: prod.splits sum.splits) (metis fst_conv)

lemma honest_parser:
  "x \<in> set (fst (parserSeg (parameterParsers h) q v)) \<Longrightarrow> honest h soda b q x"
  by (auto simp: parserSeg_def dest!: parserEvents_honest)

lemma honest_body: "x \<in> set (fst (bodySeg h b q v)) \<Longrightarrow> honest h soda b q x"
  by (auto simp: bodySeg_def split: if_splits option.splits sum.splits)

lemma honest_pipeline:
  assumes "input b = Some t" and "x \<in> set (fst (pipeline h soda b q t v))"
  shows "honest h soda b q x"
proof -
  from assms(2) consider
      v1 where "x \<in> set (fst (parserSeg (parameterParsers h) q v1))"
    | v1 where "x \<in> set (fst (bodySeg h b q v1))"
    | v1 where "x \<in> set (fst (gateSeg Structural (validator soda) v1))"
    | v1 where "x \<in> set (fst (gateSeg SelfValidate (customizeValidate h t) v1))"
    | v1 where "x \<in> set (fst (gateSeg SelfValidateCtx (map_option (\<lambda>g. g q) (customizeValidateCtx h t)) v1))"
    unfolding pipeline_def selfChecked_def checked_def binding_def
    by (blast dest: seq_events)
  then show ?thesis
  proof cases
    case 1 then show ?thesis by (rule honest_parser)
  next
    case 2 then show ?thesis by (rule honest_body)
  next
    case 3 then show ?thesis
      by (auto simp: gateSeg_def stageSeg_def split: option.splits)
  next
    case 4 then show ?thesis using assms(1)
      by (auto simp: gateSeg_def stageSeg_def split: option.splits)
  next
    case 5 then show ?thesis using assms(1)
      by (auto simp: gateSeg_def stageSeg_def split: option.splits)
  qed
qed

subsection \<open>Every stage that is due runs, unless an earlier one failed\<close>

lemma seq_stop:
  "s1 v = (e1, Inl out) \<Longrightarrow> seq s1 s2 v = (e1, Inl out)"
  by (simp add: seq_def)

lemma seq_go:
  "s1 v = (e1, Inr v1) \<Longrightarrow> seq s1 s2 v = (e1 @ fst (s2 v1), snd (s2 v1))"
  by (simp add: seq_def split: prod.splits)

text \<open>A gate after a sound prefix: the stage ran, or the prefix failed.\<close>

lemma gate_present:
  assumes s1: "sound lo hi s1" and k: "hi < k"
  shows "(\<exists>u. Ran st u (f u) \<in> set (fst (seq s1 (gateSeg st (Some f)) v)))
       \<or> (fst (seq s1 (gateSeg st (Some f)) v) \<noteq> []
          \<and> failed (last (fst (seq s1 (gateSeg st (Some f)) v)))
          \<and> phase (last (fst (seq s1 (gateSeg st (Some f)) v))) < k)"
proof -
  obtain e1 r1 where r1: "s1 v = (e1, r1)" by (cases "s1 v")
  note f1 = soundD [OF s1 r1]
  show ?thesis
  proof (cases r1)
    case (Inl out)
    from f1(5) [OF Inl] have "e1 \<noteq> []" "failed (last e1)" by simp_all
    moreover from \<open>e1 \<noteq> []\<close> have "last e1 \<in> set e1" by simp
    with f1(1) k have "phase (last e1) < k" by fastforce
    ultimately show ?thesis using seq_stop [of s1 v e1 out] r1 Inl by simp
  next
    case (Inr v1)
    with r1 show ?thesis by (auto simp: seq_go gateSeg_def stageSeg_def)
  qed
qed

text \<open>What a later segment adds does not take away what is there.\<close>

lemma seq_keeps:
  assumes "(\<exists>x\<in>set (fst (s1 v)). P x)
         \<or> (fst (s1 v) \<noteq> [] \<and> failed (last (fst (s1 v))) \<and> phase (last (fst (s1 v))) < k)"
    and s1: "sound lo hi s1"
  shows "(\<exists>x\<in>set (fst (seq s1 s2 v)). P x)
         \<or> (fst (seq s1 s2 v) \<noteq> [] \<and> failed (last (fst (seq s1 s2 v)))
            \<and> phase (last (fst (seq s1 s2 v))) < k)"
proof -
  obtain e1 r1 where r1: "s1 v = (e1, r1)" by (cases "s1 v")
  note f1 = soundD [OF s1 r1]
  show ?thesis
  proof (cases r1)
    case (Inl out)
    with r1 assms(1) show ?thesis by (simp add: seq_stop)
  next
    case (Inr v1)
    from f1(6) [OF Inr] have ok: "\<forall>x\<in>set e1. \<not> failed x" by simp
    from assms(1) r1 have "(\<exists>x\<in>set e1. P x) \<or> (e1 \<noteq> [] \<and> failed (last e1))" by auto
    with ok have "\<exists>x\<in>set e1. P x" by (metis last_in_set)
    with r1 Inr show ?thesis by (auto simp: seq_go)
  qed
qed

lemma structural_present:
  assumes "validator soda = Some f"
  shows "(\<exists>x\<in>set (fst (pipeline h soda b q t v)). \<exists>u. x = Ran Structural u (f u))
       \<or> (fst (pipeline h soda b q t v) \<noteq> [] \<and> failed (last (fst (pipeline h soda b q t v)))
          \<and> phase (last (fst (pipeline h soda b q t v))) < 5)"
proof -
  have "(\<exists>x\<in>set (fst (checked h soda b q v)). \<exists>u. x = Ran Structural u (f u))
       \<or> (fst (checked h soda b q v) \<noteq> [] \<and> failed (last (fst (checked h soda b q v)))
          \<and> phase (last (fst (checked h soda b q v))) < 5)"
    using gate_present [OF sound_binding, of 5 Structural f h b q v] assms
    unfolding checked_def by auto
  then show ?thesis
    unfolding pipeline_def selfChecked_def
    by (intro seq_keeps [OF _ sound_selfChecked [unfolded selfChecked_def]]
          seq_keeps [OF _ sound_checked])
qed

lemma validate_present:
  assumes "customizeValidate h t = Some f"
  shows "(\<exists>x\<in>set (fst (pipeline h soda b q t v)). \<exists>u. x = Ran SelfValidate u (f u))
       \<or> (fst (pipeline h soda b q t v) \<noteq> [] \<and> failed (last (fst (pipeline h soda b q t v)))
          \<and> phase (last (fst (pipeline h soda b q t v))) < 6)"
proof -
  have "(\<exists>x\<in>set (fst (selfChecked h soda b q t v)). \<exists>u. x = Ran SelfValidate u (f u))
       \<or> (fst (selfChecked h soda b q t v) \<noteq> [] \<and> failed (last (fst (selfChecked h soda b q t v)))
          \<and> phase (last (fst (selfChecked h soda b q t v))) < 6)"
    using gate_present [OF sound_checked, of 6 SelfValidate f h soda b q v] assms
    unfolding selfChecked_def by auto
  then show ?thesis
    unfolding pipeline_def by (intro seq_keeps [OF _ sound_selfChecked])
qed

lemma validateCtx_present:
  assumes "customizeValidateCtx h t = Some g"
  shows "(\<exists>x\<in>set (fst (pipeline h soda b q t v)). \<exists>u. x = Ran SelfValidateCtx u (g q u))
       \<or> (fst (pipeline h soda b q t v) \<noteq> [] \<and> failed (last (fst (pipeline h soda b q t v)))
          \<and> phase (last (fst (pipeline h soda b q t v))) < 7)"
  using gate_present [OF sound_selfChecked, of 7 SelfValidateCtx "g q" h soda b q t v] assms
  unfolding pipeline_def by auto

lemma seq_keeps_gen:
  assumes "(\<exists>x\<in>set (fst (s1 v)). P x)
         \<or> (fst (s1 v) \<noteq> [] \<and> failed (last (fst (s1 v))) \<and> Q (last (fst (s1 v))))"
    and s1: "sound lo hi s1"
  shows "(\<exists>x\<in>set (fst (seq s1 s2 v)). P x)
         \<or> (fst (seq s1 s2 v) \<noteq> [] \<and> failed (last (fst (seq s1 s2 v)))
            \<and> Q (last (fst (seq s1 s2 v))))"
proof -
  obtain e1 r1 where r1: "s1 v = (e1, r1)" by (cases "s1 v")
  note f1 = soundD [OF s1 r1]
  show ?thesis
  proof (cases r1)
    case (Inl out)
    with r1 assms(1) show ?thesis by (simp add: seq_stop)
  next
    case (Inr v1)
    from f1(6) [OF Inr] have ok: "\<forall>x\<in>set e1. \<not> failed x" by simp
    from assms(1) r1 have "(\<exists>x\<in>set e1. P x) \<or> (e1 \<noteq> [] \<and> failed (last e1))" by auto
    with ok have "\<exists>x\<in>set e1. P x" by (metis last_in_set)
    with r1 Inr show ?thesis by (auto simp: seq_go)
  qed
qed

lemma pipeline_keeps_binding:
  assumes "(\<exists>x\<in>set (fst (binding h b q v)). P x)
         \<or> (fst (binding h b q v) \<noteq> [] \<and> failed (last (fst (binding h b q v)))
            \<and> Q (last (fst (binding h b q v))))"
  shows "(\<exists>x\<in>set (fst (pipeline h soda b q t v)). P x)
         \<or> (fst (pipeline h soda b q t v) \<noteq> [] \<and> failed (last (fst (pipeline h soda b q t v)))
            \<and> Q (last (fst (pipeline h soda b q t v))))"
  unfolding pipeline_def selfChecked_def checked_def
  by (intro seq_keeps_gen [OF _ sound_selfChecked [unfolded selfChecked_def checked_def]]
        seq_keeps_gen [OF _ sound_checked [unfolded checked_def]]
        seq_keeps_gen [OF _ sound_binding] assms)

lemma parserEvents_present:
  "j < length ps \<Longrightarrow>
     (\<exists>u. Ran (Parameter (i + j)) u ((ps ! j) q u) \<in> set (parserEvents ps q i v))
     \<or> (parserEvents ps q i v \<noteq> [] \<and> failed (last (parserEvents ps q i v))
        \<and> phase (last (parserEvents ps q i v)) = 1
        \<and> parserIndex (last (parserEvents ps q i v)) < i + j)"
proof (induction ps arbitrary: i j v)
  case Nil
  then show ?case by simp
next
  case (Cons p ps)
  show ?case
  proof (cases j)
    case 0
    then show ?thesis by auto
  next
    case (Suc j')
    with Cons.prems have j': "j' < length ps" by simp
    show ?thesis
    proof (cases "p q v")
      case (Inl e)
      with Suc show ?thesis by simp
    next
      case (Inr v1)
      from Cons.IH [OF j', of "Suc i" v1] Inr Suc show ?thesis by auto
    qed
  qed
qed

lemma parser_present:
  assumes "j < length (parameterParsers h)"
  shows "(\<exists>x\<in>set (fst (pipeline h soda b q t v)). \<exists>u. x = Ran (Parameter j) u ((parameterParsers h ! j) q u))
       \<or> (fst (pipeline h soda b q t v) \<noteq> [] \<and> failed (last (fst (pipeline h soda b q t v)))
          \<and> (phase (last (fst (pipeline h soda b q t v))) = 1
              \<and> parserIndex (last (fst (pipeline h soda b q t v))) < j))"
proof (rule pipeline_keeps_binding)
  have "(\<exists>x\<in>set (fst (parserSeg (parameterParsers h) q v)). \<exists>u. x = Ran (Parameter j) u ((parameterParsers h ! j) q u))
       \<or> (fst (parserSeg (parameterParsers h) q v) \<noteq> [] \<and> failed (last (fst (parserSeg (parameterParsers h) q v)))
          \<and> (phase (last (fst (parserSeg (parameterParsers h) q v))) = 1
              \<and> parserIndex (last (fst (parserSeg (parameterParsers h) q v))) < j))"
    using parserEvents_present [OF assms, of 0 q v] by (auto simp: parserSeg_def)
  then show "(\<exists>x\<in>set (fst (binding h b q v)). \<exists>u. x = Ran (Parameter j) u ((parameterParsers h ! j) q u))
       \<or> (fst (binding h b q v) \<noteq> [] \<and> failed (last (fst (binding h b q v)))
          \<and> (phase (last (fst (binding h b q v))) = 1
              \<and> parserIndex (last (fst (binding h b q v))) < j))"
    unfolding binding_def by (rule seq_keeps_gen [OF _ sound_parser])
qed

lemma body_present:
  assumes "inputBodyField b \<noteq> []" and "inputBody b = Some bt"
  shows "(\<exists>x\<in>set (fst (pipeline h soda b q t v)). x = Ran Body (New h bt) (BodyParser h q (New h bt)))
       \<or> (fst (pipeline h soda b q t v) \<noteq> [] \<and> failed (last (fst (pipeline h soda b q t v)))
          \<and> phase (last (fst (pipeline h soda b q t v))) < 2)"
proof (rule pipeline_keeps_binding)
  obtain e1 r1 where r1: "parserSeg (parameterParsers h) q v = (e1, r1)"
    by (cases "parserSeg (parameterParsers h) q v")
  note f1 = soundD [OF sound_parser r1]
  show "(\<exists>x\<in>set (fst (binding h b q v)). x = Ran Body (New h bt) (BodyParser h q (New h bt)))
       \<or> (fst (binding h b q v) \<noteq> [] \<and> failed (last (fst (binding h b q v)))
          \<and> phase (last (fst (binding h b q v))) < 2)"
  proof (cases r1)
    case (Inl out)
    from f1(5) [OF Inl] have "e1 \<noteq> []" "failed (last e1)" by simp_all
    moreover from \<open>e1 \<noteq> []\<close> have "last e1 \<in> set e1" by simp
    with f1(1) have "phase (last e1) < 2" by fastforce
    ultimately show ?thesis
      unfolding binding_def
      using seq_stop [of "parserSeg (parameterParsers h) q" v e1 out] r1 Inl by simp
  next
    case (Inr v1)
    with r1 assms show ?thesis
      unfolding binding_def
      by (auto simp: seq_go bodySeg_def split: sum.splits option.splits)
  qed
qed

lemma assign_present:
  assumes "inputBodyField b \<noteq> []"
  shows "(\<exists>x\<in>set (fst (pipeline h soda b q t v)). \<exists>u y w. x = Assign u (inputBodyField b) y w)
       \<or> (fst (pipeline h soda b q t v) \<noteq> [] \<and> failed (last (fst (pipeline h soda b q t v)))
          \<and> phase (last (fst (pipeline h soda b q t v))) < 5)"
proof (rule pipeline_keeps_binding)
  obtain e1 r1 where r1: "parserSeg (parameterParsers h) q v = (e1, r1)"
    by (cases "parserSeg (parameterParsers h) q v")
  note f1 = soundD [OF sound_parser r1]
  show "(\<exists>x\<in>set (fst (binding h b q v)). \<exists>u y w. x = Assign u (inputBodyField b) y w)
       \<or> (fst (binding h b q v) \<noteq> [] \<and> failed (last (fst (binding h b q v)))
          \<and> phase (last (fst (binding h b q v))) < 5)"
  proof (cases r1)
    case (Inl out)
    from f1(5) [OF Inl] have "e1 \<noteq> []" "failed (last e1)" by simp_all
    moreover from \<open>e1 \<noteq> []\<close> have "last e1 \<in> set e1" by simp
    with f1(1) have "phase (last e1) < 5" by fastforce
    ultimately show ?thesis
      unfolding binding_def
      using seq_stop [of "parserSeg (parameterParsers h) q" v e1 out] r1 Inl by simp
  next
    case (Inr v1)
    with r1 assms show ?thesis
      unfolding binding_def
      by (auto simp: seq_go bodySeg_def split: sum.splits option.splits)
  qed
qed

subsection \<open>A run of the pre-handler and its journal\<close>

lemma bindInput_run:
  assumes run: "bindInput h soda b c = (out, c')" and journal: "calls c' = calls c @ evs"
    and inp: "input b = Some t"
  obtains (stopped) pevs where
      "pipeline h soda b (request c) t (New h t) = (pevs, Inl out)"
      "evs = NewInput t (New h t) # pevs" "Locals c' = Locals c" "request c' = request c"
  | (passed) pevs v where
      "pipeline h soda b (request c) t (New h t) = (pevs, Inr v)"
      "evs = NewInput t (New h t) # pevs @ [Store KeyInput v, Proceed]"
      "Locals c' = (Locals c)(KeyInput \<mapsto> v)" "out = Inr (Next h c')" "request c' = request c"
proof -
  obtain pevs r where p: "pipeline h soda b (request c) t (New h t) = (pevs, r)"
    by (cases "pipeline h soda b (request c) t (New h t)")
  show thesis
  proof (cases r)
    case (Inl ou)
    with run journal inp p have "out = ou" "evs = NewInput t (New h t) # pevs"
        "Locals c' = Locals c" "request c' = request c"
      by (auto simp: bindInput_preHandler preHandler_def)
    with p Inl show thesis by (intro stopped) simp_all
  next
    case (Inr v)
    with run journal inp p have "evs = NewInput t (New h t) # pevs @ [Store KeyInput v, Proceed]"
        "Locals c' = (Locals c)(KeyInput \<mapsto> v)" "out = Inr (Next h c')" "request c' = request c"
      by (auto simp: bindInput_preHandler preHandler_def)
    with p Inr show thesis by (intro passed) simp_all
  qed
qed

subsection \<open>Lists in order\<close>

lemma before_asym: "before x y \<Longrightarrow> \<not> before y x"
  by (auto simp: before_def)

lemma before_irrefl: "\<not> before x x"
  by (auto simp: before_def)

lemma sorted_before_last:
  "sorted_wrt before evs \<Longrightarrow> x \<in> set (butlast evs) \<Longrightarrow> before x (last evs)"
proof (induction evs rule: rev_induct)
  case Nil
  then show ?case by simp
next
  case (snoc y evs)
  then show ?case by (simp add: sorted_wrt_append)
qed

lemma sorted_before_left:
  assumes "sorted_wrt before (xs @ x # ys)" and "y \<in> set (xs @ x # ys)" and "before y x"
  shows "y \<in> set xs"
proof (rule ccontr)
  assume "y \<notin> set xs"
  with assms(2) consider "y = x" | "y \<in> set ys" by auto
  then show False
  proof cases
    case 1
    with assms(3) show False by (simp add: before_irrefl)
  next
    case 2
    with assms(1) have "before x y" by (simp add: sorted_wrt_append)
    with assms(3) show False by (simp add: before_asym)
  qed
qed

lemma sorted_before_right:
  assumes "sorted_wrt before (xs @ x # ys)" and "y \<in> set (xs @ x # ys)" and "before x y"
  shows "y \<in> set ys"
proof (rule ccontr)
  assume "y \<notin> set ys"
  with assms(2) consider "y = x" | "y \<in> set xs" by auto
  then show False
  proof cases
    case 1
    with assms(3) show False by (simp add: before_irrefl)
  next
    case 2
    with assms(1) have "before y x" by (simp add: sorted_wrt_append)
    with assms(3) show False by (simp add: before_asym)
  qed
qed

lemma sorted_before_sides:
  assumes "sorted_wrt before (xs @ x # ys)"
  shows "\<forall>y\<in>set xs. before y x" and "\<forall>y\<in>set ys. before x y"
  using assms by (simp_all add: sorted_wrt_append)

lemma flows_split:
  "flows cur (xs @ x # ys) \<Longrightarrow> takes x = Some v \<Longrightarrow> v = instanceFrom cur xs"
  by (simp add: flows_append)

lemma not_in_butlast_last:
  "x \<in> set evs \<Longrightarrow> x \<notin> set (butlast evs) \<Longrightarrow> x = last evs"
  by (induction evs rule: rev_induct) auto

lemma failed_phase: "failed x \<Longrightarrow> phase x \<le> 7"
  by (cases x rule: failed.cases) (simp_all, (rename_tac st v e, case_tac st, simp_all)?)

subsection \<open>The journal of a run\<close>

lemma bindInput_idle:
  assumes "bindInput h soda b c = (out, c')" and "calls c' = calls c @ evs"
    and "input b = None"
  shows "evs = [Proceed]" and "Locals c' = Locals c" and "out = Inr (Next h c')"
    and "request c' = request c"
  using assms by (auto simp: bindInput_preHandler preHandler_def)

lemma journal_sorted:
  assumes "bindInput h soda b c = (out, c')" and "calls c' = calls c @ evs"
  shows "sorted_wrt before evs"
proof (cases "input b")
  case None
  from bindInput_idle [OF assms this] show ?thesis by simp
next
  case (Some t)
  from assms Some show ?thesis
  proof (cases rule: bindInput_run)
    case (stopped pevs)
    from soundD(1,2) [OF sound_pipeline stopped(1)] stopped(2) show ?thesis
      by (auto simp: before_def)
  next
    case (passed pevs v)
    from soundD(1,2) [OF sound_pipeline passed(1)] passed(2) show ?thesis
      by (auto simp: before_def sorted_wrt_append)
  qed
qed

lemma journal_fail_last:
  assumes "bindInput h soda b c = (out, c')" and "calls c' = calls c @ evs"
  shows "\<forall>x\<in>set (butlast evs). \<not> failed x"
proof (cases "input b")
  case None
  from bindInput_idle [OF assms this] show ?thesis by simp
next
  case (Some t)
  from assms Some show ?thesis
  proof (cases rule: bindInput_run)
    case (stopped pevs)
    from soundD(3) [OF sound_pipeline stopped(1)] soundD(5) [OF sound_pipeline stopped(1) refl]
      stopped(2) show ?thesis
      by auto
  next
    case (passed pevs v)
    from soundD(6) [OF sound_pipeline passed(1) refl] passed(2) show ?thesis
      by (auto simp: butlast_append)
  qed
qed

lemma journal_flows:
  assumes "bindInput h soda b c = (out, c')" and "calls c' = calls c @ evs"
  shows "flows cur evs"
proof (cases "input b")
  case None
  from bindInput_idle [OF assms this] show ?thesis by simp
next
  case (Some t)
  from assms Some show ?thesis
  proof (cases rule: bindInput_run)
    case (stopped pevs)
    from soundD(4) [OF sound_pipeline stopped(1)] stopped(2) show ?thesis
      by simp
  next
    case (passed pevs v)
    from soundD(4) [OF sound_pipeline passed(1)] soundD(6) [OF sound_pipeline passed(1) refl]
      passed(2) show ?thesis
      by (simp add: flows_append)
  qed
qed

lemma journal_honest:
  assumes "bindInput h soda b c = (out, c')" and "calls c' = calls c @ evs"
  shows "\<forall>x\<in>set evs. honest h soda b (request c) x"
proof (cases "input b")
  case None
  from bindInput_idle [OF assms this] show ?thesis by simp
next
  case (Some t)
  from assms Some show ?thesis
  proof (cases rule: bindInput_run)
    case (stopped pevs)
    with honest_pipeline [OF Some, of _ h soda "request c" "New h t"] Some show ?thesis
      by auto
  next
    case (passed pevs v)
    with honest_pipeline [OF Some, of _ h soda "request c" "New h t"] Some show ?thesis
      by auto
  qed
qed

text \<open>How a run ends: on the entry that failed, or on the store and the passing on.\<close>

lemma journal_end:
  assumes "bindInput h soda b c = (out, c')" and "calls c' = calls c @ evs"
    and "input b = Some t"
  shows "(evs \<noteq> [] \<and> failed (last evs) \<and> out = outcomeOf (last evs) \<and> Locals c' = Locals c
            \<and> (\<forall>x\<in>set evs. phase x \<le> 7))
       \<or> (\<exists>pre v. evs = pre @ [Store KeyInput v, Proceed] \<and> (\<forall>x\<in>set pre. \<not> failed x \<and> phase x \<le> 7)
            \<and> v = instanceFrom (New h t) pre
            \<and> Locals c' = (Locals c)(KeyInput \<mapsto> v) \<and> out = Inr (Next h c'))"
  using assms
proof (cases rule: bindInput_run)
  case (stopped pevs)
  from soundD(1) [OF sound_pipeline stopped(1)] soundD(5) [OF sound_pipeline stopped(1) refl]
    stopped(2,3) show ?thesis
    by auto
next
  case (passed pevs v)
  from soundD(1) [OF sound_pipeline passed(1)] soundD(6) [OF sound_pipeline passed(1) refl]
    passed(2,3,4)
  have "evs = (NewInput t (New h t) # pevs) @ [Store KeyInput v, Proceed]
      \<and> (\<forall>x\<in>set (NewInput t (New h t) # pevs). \<not> failed x \<and> phase x \<le> 7)
      \<and> v = instanceFrom (New h t) (NewInput t (New h t) # pevs)
      \<and> Locals c' = (Locals c)(KeyInput \<mapsto> v) \<and> out = Inr (Next h c')"
    by auto
  then show ?thesis by blast
qed

text \<open>A stage that is due has run, or the run has failed where the lemma for the stage says.\<close>

lemma journal_present:
  assumes "bindInput h soda b c = (out, c')" and "calls c' = calls c @ evs"
    and "input b = Some t"
    and "(\<exists>x\<in>set (fst (pipeline h soda b (request c) t (New h t))). P x)
       \<or> (fst (pipeline h soda b (request c) t (New h t)) \<noteq> []
          \<and> failed (last (fst (pipeline h soda b (request c) t (New h t))))
          \<and> Q (last (fst (pipeline h soda b (request c) t (New h t)))))"
  shows "(\<exists>x\<in>set evs. P x) \<or> (failed (last evs) \<and> Q (last evs))"
  using assms(1-3)
proof (cases rule: bindInput_run)
  case (stopped pevs)
  with assms(4) show ?thesis by auto
next
  case (passed pevs v)
  from soundD(6) [OF sound_pipeline passed(1) refl] have "\<forall>x\<in>set pevs. \<not> failed x" by simp
  with assms(4) passed(1) have "\<exists>x\<in>set pevs. P x" by (auto dest: last_in_set)
  with passed(2) show ?thesis by auto
qed

text \<open>An entry that is in the journal, and what is on either side of it.\<close>

lemma split_phases:
  assumes "sorted_wrt before (xs @ x # ys)" and "phase x \<noteq> 1"
  shows "\<forall>y\<in>set xs. phase y < phase x" and "\<forall>y\<in>set ys. phase x < phase y"
  using sorted_before_sides [OF assms(1)] assms(2) by (auto simp: before_def)

lemma split_no_failure:
  assumes "\<forall>y\<in>set (butlast (xs @ x # ys)). \<not> failed y"
  shows "\<forall>y\<in>set xs. \<not> failed y"
  using assms by (simp add: butlast_append)

lemma earlier_entry:
  assumes sorted: "sorted_wrt before (xs @ x # ys)"
    and ok: "\<forall>y\<in>set (butlast (xs @ x # ys)). \<not> failed y"
    and pres: "(\<exists>y\<in>set (xs @ x # ys). P y) \<or> (failed (last (xs @ x # ys)) \<and> Q (last (xs @ x # ys)))"
    and P: "\<And>y. P y \<Longrightarrow> phase y < phase x"
    and Q: "\<And>y. Q y \<Longrightarrow> phase y < phase x"
  shows "\<exists>y\<in>set xs. P y \<and> \<not> failed y"
proof -
  have "\<not> Q (last (xs @ x # ys))"
  proof (cases "ys = []")
    case True
    then show ?thesis using Q [of x] by auto
  next
    case False
    then have "last (xs @ x # ys) \<in> set ys" by simp
    with sorted_before_sides(2) [OF sorted] have "before x (last (xs @ x # ys))" by blast
    then have "phase x \<le> phase (last (xs @ x # ys))" by (auto simp: before_def)
    then show ?thesis using Q [of "last (xs @ x # ys)"] by auto
  qed
  with pres obtain y where y: "y \<in> set (xs @ x # ys)" "P y" by blast
  from P [OF y(2)] have "before y x" by (rule before_phase)
  from sorted_before_left [OF sorted y(1) this] have "y \<in> set xs" .
  with split_no_failure [OF ok] y(2) show ?thesis by blast
qed

lemma journal_hook_absent:
  assumes "bindInput h soda b c = (out, c')" and "calls c' = calls c @ evs"
    and "input b = Some t"
  shows "customizeValidate h t = None \<Longrightarrow> \<forall>x\<in>set evs. \<not> ranStage SelfValidate x"
    and "customizeValidateCtx h t = None \<Longrightarrow> \<forall>x\<in>set evs. \<not> ranStage SelfValidateCtx x"
    and "validator soda = None \<Longrightarrow> \<forall>x\<in>set evs. \<not> ranStage Structural x"
  using journal_honest [OF assms(1,2)] assms(3)
  by (auto elim!: ranStage.elims)

text \<open>A run with an input has a journal, and the journal starts with the allocation.\<close>

lemma journal_nonempty:
  assumes "bindInput h soda b c = (out, c')" and "calls c' = calls c @ evs"
  shows "evs \<noteq> []"
proof (cases "input b")
  case None
  from bindInput_idle(1) [OF assms this] show ?thesis by simp
next
  case (Some t)
  from journal_end [OF assms Some] show ?thesis by auto
qed

lemma journal_head:
  assumes "bindInput h soda b c = (out, c')" and "calls c' = calls c @ evs"
    and "input b = Some t"
  shows "hd evs = NewInput t (New h t)"
  using assms by (cases rule: bindInput_run) simp_all





text \<open>The first parser, without the journal.\<close>

lemma first_parser_fails:
  assumes "bindInput h soda b c = (out, c')" and "input b = Some t"
    and "parameterParsers h = p # ps" and "p (request c) (New h t) = Inl err"
  shows "out = Inr (Some err)"
  using assms by (auto simp: bindInput_def Let_def run_def journal_def)

section \<open>Two requests to the small service\<close>


lemma run_alice:
  "bindInput exampleHost validatingSoda createUser (fresh alice) =
     (Inr None, \<lparr>request = alice, Locals = [KeyInput \<mapsto> aliceInput], calls = aliceJournal\<rparr>)"
  by (simp add: bindInput_def parseBody_def validateStruct_def validate_def validateCtx_def
        callNext_def run_def journal_def exampleHost_def validatingSoda_def exampleSoda_def
        createUser_def newOperation_def fresh_def alice_def aliceInput_def aliceJournal_def
        queryParser_def jsonParser_def setField_def notRoot_def shortName_def)

lemma run_anonymous:
  "bindInput exampleHost validatingSoda createUser (fresh ([], ''a@b.com'')) =
     (Inr (Some (Error ''name is required'')),
      \<lparr>request = ([], ''a@b.com''), Locals = Map.empty,
       calls = [NewInput 1 [], Ran (Parameter 0) [] (Inl (Error ''name is required''))]\<rparr>)"
  by (simp add: bindInput_def parseBody_def validateStruct_def validate_def validateCtx_def
        callNext_def run_def journal_def exampleHost_def validatingSoda_def exampleSoda_def
        createUser_def newOperation_def fresh_def
        queryParser_def jsonParser_def setField_def notRoot_def shortName_def)



section \<open>Properties of the binding pipeline\<close>

text \<open>
  C10. Without an Input Definition the pre-handler does one thing: it passes control
  on, and returns what the rest of the chain returns. The journal gains the entry of
  \<open>c.Next()\<close> and nothing else (no allocation, no parser, no body, no validation, no
  store), and the request-scoped store is as it was.
\<close>

theorem bindInput_without_input:
  assumes "input b = None"
  shows "bindInput h soda b c =
           (Inr (Next h (c\<lparr>calls := calls c @ [Proceed]\<rparr>)), c\<lparr>calls := calls c @ [Proceed]\<rparr>)"
  using assms by (simp add: bindInput_def callNext_def journal_def Let_def)

theorem bindInput_without_input_witness:
  "bindInput exampleHost validatingSoda newOperation (fresh alice) =
     (Inr None, \<lparr>request = alice, Locals = Map.empty, calls = [Proceed]\<rparr>)"
  using bindInput_without_input [of newOperation exampleHost validatingSoda "fresh alice"]
  by (simp add: newOperation_def fresh_def exampleHost_def)

lemma isStore_phase: "isStore x \<Longrightarrow> phase x = 8"
  by (cases x) simp_all

text \<open>
  C1. A stage that returns an error ends the run with that error. For a run of the
  pre-handler and the entries it adds to the journal: when an entry records a stage
  (a parameter parser, the body parser, the struct validator or one of the two hooks)
  that returned an error, the handler returns that error; the entry is the last one,
  so no stage runs after it, and no entry before it has failed; \<open>c.Next()\<close> is not
  called and nothing is stored. And the entries are there: with an input type the
  journal starts with the allocation of the input; every stage that is due (each
  parameter parser, the body parser when a body field is named, the struct validator
  when there is one, each hook the type implements) has its entry, with the answer the
  stage gave, unless the run has failed at an earlier stage; every stage is handed the
  input as the entries before it left it; a run that ends on a failed entry returns
  what that entry says; and when the first parameter parser returns an error on the
  fresh input, the handler returns it.
\<close>

theorem bindInput_stops_at_error:
  assumes run: "bindInput h soda b c = (out, c')" and journal: "calls c' = calls c @ evs"
  shows "(\<forall>st v err. Ran st v (Inl err) \<in> set evs \<longrightarrow>
            out = Inr (Some err)
            \<and> last evs = Ran st v (Inl err)
            \<and> (\<forall>x\<in>set (butlast evs). \<not> failed x)
            \<and> Proceed \<notin> set evs
            \<and> (\<forall>x\<in>set evs. \<not> isStore x)
            \<and> Locals c' = Locals c
            \<and> honest h soda b (request c) (Ran st v (Inl err)))
       \<and> (\<forall>t. input b = Some t \<longrightarrow>
            evs \<noteq> [] \<and> hd evs = NewInput t (New h t)
            \<and> (\<forall>j<length (parameterParsers h).
                  (\<exists>u. Ran (Parameter j) u ((parameterParsers h ! j) (request c) u) \<in> set evs)
                  \<or> (failed (last evs) \<and> phase (last evs) = 1 \<and> parserIndex (last evs) < j))
            \<and> (\<forall>bt. inputBodyField b \<noteq> [] \<longrightarrow> inputBody b = Some bt \<longrightarrow>
                  Ran Body (New h bt) (BodyParser h (request c) (New h bt)) \<in> set evs
                  \<or> (failed (last evs) \<and> phase (last evs) < 2))
            \<and> (\<forall>s. validator soda = Some s \<longrightarrow>
                  (\<exists>u. Ran Structural u (s u) \<in> set evs) \<or> (failed (last evs) \<and> phase (last evs) < 5))
            \<and> (\<forall>f. customizeValidate h t = Some f \<longrightarrow>
                  (\<exists>u. Ran SelfValidate u (f u) \<in> set evs) \<or> (failed (last evs) \<and> phase (last evs) < 6))
            \<and> (\<forall>g. customizeValidateCtx h t = Some g \<longrightarrow>
                  (\<exists>u. Ran SelfValidateCtx u (g (request c) u) \<in> set evs)
                  \<or> (failed (last evs) \<and> phase (last evs) < 7))
            \<and> (\<forall>xs st v r ys. evs = xs @ Ran st v r # ys \<longrightarrow> st \<noteq> Body \<longrightarrow>
                  v = instanceFrom (New h t) xs)
            \<and> (\<forall>x\<in>set evs. honest h soda b (request c) x)
            \<and> (failed (last evs) \<longrightarrow> out = outcomeOf (last evs))
            \<and> (\<forall>p ps err. parameterParsers h = p # ps \<longrightarrow> p (request c) (New h t) = Inl err \<longrightarrow>
                  out = Inr (Some err)))"
proof -
  note honest = journal_honest [OF run journal]
  have stop: "\<forall>st v err. Ran st v (Inl err) \<in> set evs \<longrightarrow>
      out = Inr (Some err)
      \<and> last evs = Ran st v (Inl err)
      \<and> (\<forall>x\<in>set (butlast evs). \<not> failed x)
      \<and> Proceed \<notin> set evs
      \<and> (\<forall>x\<in>set evs. \<not> isStore x)
      \<and> Locals c' = Locals c
      \<and> honest h soda b (request c) (Ran st v (Inl err))"
  proof (intro allI impI)
    fix st v err
    assume err: "Ran st v (Inl err) \<in> set evs"
    have ok: "\<forall>x\<in>set (butlast evs). \<not> failed x"
      by (rule journal_fail_last [OF run journal])
    then have "Ran st v (Inl err) \<notin> set (butlast evs)" by auto
    with err have last: "last evs = Ran st v (Inl err)"
      by (rule not_in_butlast_last [symmetric])
    obtain t where t: "input b = Some t"
      using bindInput_idle(1) [OF run journal] err by (cases "input b") auto
    from journal_end [OF run journal t] last
    have *: "out = Inr (Some err)" "Locals c' = Locals c" "\<forall>x\<in>set evs. phase x \<le> 7"
      by auto
    have "Proceed \<notin> set evs"
      using *(3) by force
    moreover have "\<forall>x\<in>set evs. \<not> isStore x"
    proof
      fix x assume "x \<in> set evs"
      with *(3) have "phase x \<le> 7" by simp
      then show "\<not> isStore x" by (auto dest: isStore_phase)
    qed
    moreover have "honest h soda b (request c) (Ran st v (Inl err))"
      using honest err by blast
    ultimately show "out = Inr (Some err)
      \<and> last evs = Ran st v (Inl err)
      \<and> (\<forall>x\<in>set (butlast evs). \<not> failed x)
      \<and> Proceed \<notin> set evs
      \<and> (\<forall>x\<in>set evs. \<not> isStore x)
      \<and> Locals c' = Locals c
      \<and> honest h soda b (request c) (Ran st v (Inl err))"
      using * last ok by simp
  qed
  have due: "\<forall>t. input b = Some t \<longrightarrow>
      evs \<noteq> [] \<and> hd evs = NewInput t (New h t)
      \<and> (\<forall>j<length (parameterParsers h).
            (\<exists>u. Ran (Parameter j) u ((parameterParsers h ! j) (request c) u) \<in> set evs)
            \<or> (failed (last evs) \<and> phase (last evs) = 1 \<and> parserIndex (last evs) < j))
      \<and> (\<forall>bt. inputBodyField b \<noteq> [] \<longrightarrow> inputBody b = Some bt \<longrightarrow>
            Ran Body (New h bt) (BodyParser h (request c) (New h bt)) \<in> set evs
            \<or> (failed (last evs) \<and> phase (last evs) < 2))
      \<and> (\<forall>s. validator soda = Some s \<longrightarrow>
            (\<exists>u. Ran Structural u (s u) \<in> set evs) \<or> (failed (last evs) \<and> phase (last evs) < 5))
      \<and> (\<forall>f. customizeValidate h t = Some f \<longrightarrow>
            (\<exists>u. Ran SelfValidate u (f u) \<in> set evs) \<or> (failed (last evs) \<and> phase (last evs) < 6))
      \<and> (\<forall>g. customizeValidateCtx h t = Some g \<longrightarrow>
            (\<exists>u. Ran SelfValidateCtx u (g (request c) u) \<in> set evs)
            \<or> (failed (last evs) \<and> phase (last evs) < 7))
      \<and> (\<forall>xs st v r ys. evs = xs @ Ran st v r # ys \<longrightarrow> st \<noteq> Body \<longrightarrow>
            v = instanceFrom (New h t) xs)
      \<and> (\<forall>x\<in>set evs. honest h soda b (request c) x)
      \<and> (failed (last evs) \<longrightarrow> out = outcomeOf (last evs))
      \<and> (\<forall>p ps err. parameterParsers h = p # ps \<longrightarrow> p (request c) (New h t) = Inl err \<longrightarrow>
            out = Inr (Some err))"
  proof (intro allI impI)
    fix t assume inp: "input b = Some t"
    note jp = journal_present [OF run journal inp]
    have a: "evs \<noteq> []" by (rule journal_nonempty [OF run journal])
    have b: "hd evs = NewInput t (New h t)" by (rule journal_head [OF run journal inp])
    have p: "\<forall>j<length (parameterParsers h).
        (\<exists>u. Ran (Parameter j) u ((parameterParsers h ! j) (request c) u) \<in> set evs)
        \<or> (failed (last evs) \<and> phase (last evs) = 1 \<and> parserIndex (last evs) < j)"
    proof (intro allI impI)
      fix j assume "j < length (parameterParsers h)"
      from jp [where P = "\<lambda>x. \<exists>u. x = Ran (Parameter j) u ((parameterParsers h ! j) (request c) u)"
          and Q = "\<lambda>x. phase x = 1 \<and> parserIndex x < j", OF parser_present [OF this]]
      show "(\<exists>u. Ran (Parameter j) u ((parameterParsers h ! j) (request c) u) \<in> set evs)
          \<or> (failed (last evs) \<and> phase (last evs) = 1 \<and> parserIndex (last evs) < j)"
        by auto
    qed
    have d: "\<forall>bt. inputBodyField b \<noteq> [] \<longrightarrow> inputBody b = Some bt \<longrightarrow>
        Ran Body (New h bt) (BodyParser h (request c) (New h bt)) \<in> set evs
        \<or> (failed (last evs) \<and> phase (last evs) < 2)"
    proof (intro allI impI)
      fix bt assume "inputBodyField b \<noteq> []" and "inputBody b = Some bt"
      from jp [where P = "\<lambda>x. x = Ran Body (New h bt) (BodyParser h (request c) (New h bt))"
          and Q = "\<lambda>x. phase x < 2", OF body_present [OF this]]
      show "Ran Body (New h bt) (BodyParser h (request c) (New h bt)) \<in> set evs
          \<or> (failed (last evs) \<and> phase (last evs) < 2)"
        by auto
    qed
    have s: "\<forall>s. validator soda = Some s \<longrightarrow>
        (\<exists>u. Ran Structural u (s u) \<in> set evs) \<or> (failed (last evs) \<and> phase (last evs) < 5)"
    proof (intro allI impI)
      fix s assume "validator soda = Some s"
      from jp [where P = "\<lambda>x. \<exists>u. x = Ran Structural u (s u)"
          and Q = "\<lambda>x. phase x < 5", OF structural_present [OF this]]
      show "(\<exists>u. Ran Structural u (s u) \<in> set evs) \<or> (failed (last evs) \<and> phase (last evs) < 5)"
        by auto
    qed
    have f: "\<forall>f. customizeValidate h t = Some f \<longrightarrow>
        (\<exists>u. Ran SelfValidate u (f u) \<in> set evs) \<or> (failed (last evs) \<and> phase (last evs) < 6)"
    proof (intro allI impI)
      fix f assume "customizeValidate h t = Some f"
      from jp [where P = "\<lambda>x. \<exists>u. x = Ran SelfValidate u (f u)"
          and Q = "\<lambda>x. phase x < 6", OF validate_present [OF this]]
      show "(\<exists>u. Ran SelfValidate u (f u) \<in> set evs) \<or> (failed (last evs) \<and> phase (last evs) < 6)"
        by auto
    qed
    have g: "\<forall>g. customizeValidateCtx h t = Some g \<longrightarrow>
        (\<exists>u. Ran SelfValidateCtx u (g (request c) u) \<in> set evs)
        \<or> (failed (last evs) \<and> phase (last evs) < 7)"
    proof (intro allI impI)
      fix g assume "customizeValidateCtx h t = Some g"
      from jp [where P = "\<lambda>x. \<exists>u. x = Ran SelfValidateCtx u (g (request c) u)"
          and Q = "\<lambda>x. phase x < 7", OF validateCtx_present [OF this]]
      show "(\<exists>u. Ran SelfValidateCtx u (g (request c) u) \<in> set evs)
          \<or> (failed (last evs) \<and> phase (last evs) < 7)"
        by auto
    qed
    have fl: "\<forall>xs st v r ys. evs = xs @ Ran st v r # ys \<longrightarrow> st \<noteq> Body \<longrightarrow>
        v = instanceFrom (New h t) xs"
    proof (intro allI impI)
      fix xs st v r ys
      assume split: "evs = xs @ Ran st v r # ys" and st: "st \<noteq> Body"
      from st have "takes (Ran st v r) = Some v" by (cases st) simp_all
      with journal_flows [OF run journal, of "New h t"] split
      show "v = instanceFrom (New h t) xs" by (auto dest: flows_split)
    qed
    have o: "failed (last evs) \<longrightarrow> out = outcomeOf (last evs)"
      using journal_end [OF run journal inp] by auto
    have e: "\<forall>p ps err. parameterParsers h = p # ps \<longrightarrow> p (request c) (New h t) = Inl err \<longrightarrow>
        out = Inr (Some err)"
      using first_parser_fails [OF run inp] by blast
    from a b p d s f g fl honest o e
    show "evs \<noteq> [] \<and> hd evs = NewInput t (New h t)
      \<and> (\<forall>j<length (parameterParsers h).
            (\<exists>u. Ran (Parameter j) u ((parameterParsers h ! j) (request c) u) \<in> set evs)
            \<or> (failed (last evs) \<and> phase (last evs) = 1 \<and> parserIndex (last evs) < j))
      \<and> (\<forall>bt. inputBodyField b \<noteq> [] \<longrightarrow> inputBody b = Some bt \<longrightarrow>
            Ran Body (New h bt) (BodyParser h (request c) (New h bt)) \<in> set evs
            \<or> (failed (last evs) \<and> phase (last evs) < 2))
      \<and> (\<forall>s. validator soda = Some s \<longrightarrow>
            (\<exists>u. Ran Structural u (s u) \<in> set evs) \<or> (failed (last evs) \<and> phase (last evs) < 5))
      \<and> (\<forall>f. customizeValidate h t = Some f \<longrightarrow>
            (\<exists>u. Ran SelfValidate u (f u) \<in> set evs) \<or> (failed (last evs) \<and> phase (last evs) < 6))
      \<and> (\<forall>g. customizeValidateCtx h t = Some g \<longrightarrow>
            (\<exists>u. Ran SelfValidateCtx u (g (request c) u) \<in> set evs)
            \<or> (failed (last evs) \<and> phase (last evs) < 7))
      \<and> (\<forall>xs st v r ys. evs = xs @ Ran st v r # ys \<longrightarrow> st \<noteq> Body \<longrightarrow>
            v = instanceFrom (New h t) xs)
      \<and> (\<forall>x\<in>set evs. honest h soda b (request c) x)
      \<and> (failed (last evs) \<longrightarrow> out = outcomeOf (last evs))
      \<and> (\<forall>p ps err. parameterParsers h = p # ps \<longrightarrow> p (request c) (New h t) = Inl err \<longrightarrow>
            out = Inr (Some err))"
      by (intro conjI)
  qed
  from stop due show ?thesis by (rule conjI)
qed

theorem bindInput_stops_at_error_witness:
  "input createUser = Some 1
   \<and> parameterParsers exampleHost = [queryParser]
   \<and> queryParser ([], ''a@b.com'') (New exampleHost 1) = Inl (Error ''name is required'')
   \<and> Inr (Some (Error ''name is required'')) = (Inr (Some (Error ''name is required'')) :: outcome)
   \<and> last [NewInput 1 [], Ran (Parameter 0) [] (Inl (Error ''name is required''))]
       = (Ran (Parameter 0) [] (Inl (Error ''name is required'')) :: val event)
   \<and> Proceed \<notin> set [NewInput 1 [], Ran (Parameter 0) ([] :: val) (Inl (Error ''name is required''))]
   \<and> honest exampleHost validatingSoda createUser ([], ''a@b.com'')
        (Ran (Parameter 0) [] (Inl (Error ''name is required'')))"
proof -
  have j: "calls \<lparr>request = ([], ''a@b.com''), Locals = Map.empty,
                  calls = [NewInput 1 [], Ran (Parameter 0) [] (Inl (Error ''name is required''))]\<rparr>
      = calls (fresh ([], ''a@b.com'')) @ [NewInput 1 [], Ran (Parameter 0) [] (Inl (Error ''name is required''))]"
    by (simp add: fresh_def)
  have q: "request (fresh ([], ''a@b.com'')) = ([], ''a@b.com'')" by (simp add: fresh_def)
  have i: "input createUser = Some 1" by (simp add: createUser_def)
  have ps: "parameterParsers exampleHost = [queryParser]" by (simp add: exampleHost_def)
  have e: "queryParser ([], ''a@b.com'') (New exampleHost 1) = Inl (Error ''name is required'')"
    by (simp add: queryParser_def)
  have mem: "Ran (Parameter 0) [] (Inl (Error ''name is required''))
      \<in> set [NewInput 1 [], Ran (Parameter 0) ([] :: val) (Inl (Error ''name is required''))]"
    by simp
  note all = bindInput_stops_at_error [OF run_anonymous j, unfolded q]
  note stop = all [THEN conjunct1, THEN spec, THEN spec, THEN spec, THEN mp, OF mem]
  note due = all [THEN conjunct2, THEN spec, THEN mp, OF i]
  from stop due i ps e show ?thesis by blast
qed

text \<open>
  C5. When no entry of the run has failed (every stage that ran returned nil and
  \<open>reflect\<close> did not panic), the journal ends with the store of the input under
  \<open>KeyInput\<close>, which is \<open>"soda::input"\<close>, and then \<open>c.Next()\<close>; nothing is stored and
  control is not passed on before that. The value stored is the input as the entries
  before the store left it; the request-scoped store is the one of before the run with
  that value under the key; the handler returns what the rest of the chain returns; and
  before the store every parameter parser has run, the body has been assigned when
  the builder names a body field, the struct validator has run when there is one, and
  each hook has run when the type implements it.
\<close>

theorem bindInput_publishes_once:
  assumes run: "bindInput h soda b c = (out, c')" and journal: "calls c' = calls c @ evs"
    and inp: "input b = Some t" and ok: "\<forall>x\<in>set evs. \<not> failed x"
  shows "KeyInput = ''soda::input''
       \<and> (\<exists>pre v. evs = pre @ [Store KeyInput v, Proceed]
           \<and> (\<forall>x\<in>set pre. \<not> isStore x \<and> x \<noteq> Proceed)
           \<and> v = instanceFrom (New h t) pre
           \<and> Locals c' = (Locals c)(KeyInput \<mapsto> v)
           \<and> out = Inr (Next h c')
           \<and> (\<forall>j<length (parameterParsers h). \<exists>u. Ran (Parameter j) u ((parameterParsers h ! j) (request c) u) \<in> set pre)
           \<and> (inputBodyField b \<noteq> [] \<longrightarrow> (\<exists>u y w. Assign u (inputBodyField b) y w \<in> set pre))
           \<and> (\<forall>f. validator soda = Some f \<longrightarrow> (\<exists>u. Ran Structural u (f u) \<in> set pre))
           \<and> (\<forall>f. customizeValidate h t = Some f \<longrightarrow> (\<exists>u. Ran SelfValidate u (f u) \<in> set pre))
           \<and> (\<forall>g. customizeValidateCtx h t = Some g \<longrightarrow>
                 (\<exists>u. Ran SelfValidateCtx u (g (request c) u) \<in> set pre)))"
proof -
  have key: "KeyInput = ''soda::input''" by (simp add: KeyInput_def)
  from journal_end [OF run journal inp] ok obtain pre v where
    evs: "evs = pre @ [Store KeyInput v, Proceed]"
    and pre: "\<forall>x\<in>set pre. \<not> failed x \<and> phase x \<le> 7"
    and v: "v = instanceFrom (New h t) pre"
    and loc: "Locals c' = (Locals c)(KeyInput \<mapsto> v)" and out: "out = Inr (Next h c')"
    by (metis last_in_set)
  have noStore: "\<forall>x\<in>set pre. \<not> isStore x \<and> x \<noteq> Proceed"
  proof
    fix x assume "x \<in> set pre"
    with pre have "phase x \<le> 7" by simp
    then show "\<not> isStore x \<and> x \<noteq> Proceed" by (auto dest: isStore_phase)
  qed
  have lastev: "\<not> failed (last evs)" using evs by simp
  note jp = journal_present [OF run journal inp]
  have parsers: "\<forall>j<length (parameterParsers h).
      \<exists>u. Ran (Parameter j) u ((parameterParsers h ! j) (request c) u) \<in> set pre"
  proof (intro allI impI)
    fix j assume "j < length (parameterParsers h)"
    from jp [where P = "\<lambda>x. \<exists>u. x = Ran (Parameter j) u ((parameterParsers h ! j) (request c) u)"
        and Q = "\<lambda>x. phase x = 1 \<and> parserIndex x < j", OF parser_present [OF this]] lastev evs show
      "\<exists>u. Ran (Parameter j) u ((parameterParsers h ! j) (request c) u) \<in> set pre"
      by auto
  qed
  have body: "inputBodyField b \<noteq> [] \<longrightarrow> (\<exists>u y w. Assign u (inputBodyField b) y w \<in> set pre)"
  proof
    assume "inputBodyField b \<noteq> []"
    from jp [where P = "\<lambda>x. \<exists>u y w. x = Assign u (inputBodyField b) y w"
        and Q = "\<lambda>x. phase x < 5", OF assign_present [OF this]] lastev evs show
      "\<exists>u y w. Assign u (inputBodyField b) y w \<in> set pre"
      by auto
  qed
  have struct: "\<forall>f. validator soda = Some f \<longrightarrow> (\<exists>u. Ran Structural u (f u) \<in> set pre)"
  proof (intro allI impI)
    fix f assume "validator soda = Some f"
    from jp [where P = "\<lambda>x. \<exists>u. x = Ran Structural u (f u)"
        and Q = "\<lambda>x. phase x < 5", OF structural_present [OF this]] lastev evs show "\<exists>u. Ran Structural u (f u) \<in> set pre"
      by auto
  qed
  have val: "\<forall>f. customizeValidate h t = Some f \<longrightarrow> (\<exists>u. Ran SelfValidate u (f u) \<in> set pre)"
  proof (intro allI impI)
    fix f assume "customizeValidate h t = Some f"
    from jp [where P = "\<lambda>x. \<exists>u. x = Ran SelfValidate u (f u)"
        and Q = "\<lambda>x. phase x < 6", OF validate_present [OF this]] lastev evs show "\<exists>u. Ran SelfValidate u (f u) \<in> set pre"
      by auto
  qed
  have valCtx: "\<forall>g. customizeValidateCtx h t = Some g \<longrightarrow>
      (\<exists>u. Ran SelfValidateCtx u (g (request c) u) \<in> set pre)"
  proof (intro allI impI)
    fix g assume "customizeValidateCtx h t = Some g"
    from jp [where P = "\<lambda>x. \<exists>u. x = Ran SelfValidateCtx u (g (request c) u)"
        and Q = "\<lambda>x. phase x < 7", OF validateCtx_present [OF this]] lastev evs show
      "\<exists>u. Ran SelfValidateCtx u (g (request c) u) \<in> set pre"
      by auto
  qed
  from evs noStore v loc out parsers body struct val valCtx
  have "\<exists>pre v. evs = pre @ [Store KeyInput v, Proceed]
           \<and> (\<forall>x\<in>set pre. \<not> isStore x \<and> x \<noteq> Proceed)
           \<and> v = instanceFrom (New h t) pre
           \<and> Locals c' = (Locals c)(KeyInput \<mapsto> v)
           \<and> out = Inr (Next h c')
           \<and> (\<forall>j<length (parameterParsers h). \<exists>u. Ran (Parameter j) u ((parameterParsers h ! j) (request c) u) \<in> set pre)
           \<and> (inputBodyField b \<noteq> [] \<longrightarrow> (\<exists>u y w. Assign u (inputBodyField b) y w \<in> set pre))
           \<and> (\<forall>f. validator soda = Some f \<longrightarrow> (\<exists>u. Ran Structural u (f u) \<in> set pre))
           \<and> (\<forall>f. customizeValidate h t = Some f \<longrightarrow> (\<exists>u. Ran SelfValidate u (f u) \<in> set pre))
           \<and> (\<forall>g. customizeValidateCtx h t = Some g \<longrightarrow>
                 (\<exists>u. Ran SelfValidateCtx u (g (request c) u) \<in> set pre))"
    by blast
  with key show ?thesis by (rule conjI)
qed

theorem bindInput_publishes_once_witness:
  "input createUser = Some 1 \<and> list_all (\<lambda>x. \<not> failed x) aliceJournal
   \<and> (\<exists>pre v. aliceJournal = pre @ [Store ''soda::input'' v, Proceed]
          \<and> v = instanceFrom (New exampleHost 1) pre
          \<and> [KeyInput \<mapsto> aliceInput] = (Map.empty)(KeyInput \<mapsto> v)
          \<and> (\<exists>u. Ran Structural u (shortName u) \<in> set pre))"
proof -
  have j: "calls \<lparr>request = alice, Locals = [KeyInput \<mapsto> aliceInput], calls = aliceJournal\<rparr>
             = calls (fresh alice) @ aliceJournal"
    by (simp add: fresh_def)
  have i: "input createUser = Some 1" by (simp add: createUser_def)
  have ok: "\<forall>x\<in>set aliceJournal. \<not> failed x" by (simp add: aliceJournal_def)
  have s: "validator validatingSoda = Some shortName" by (simp add: validatingSoda_def)
  from bindInput_publishes_once [OF run_alice j i ok] s i ok show ?thesis
    by (fastforce simp: fresh_def list_all_iff)
qed

text \<open>
  C4. For a run on an input of type \<open>t\<close>: \<open>Validate()\<close> is called when the type implements
  it, unless the run has failed before the hooks; \<open>Validate(ctx)\<close> is called when the
  type implements it, unless the run has failed before it; a hook the type does not
  implement is never called. Where the journal has the call of \<open>Validate(ctx)\<close> and the
  type implements \<open>Validate()\<close>, the call of \<open>Validate()\<close> is among the entries before
  it and has returned nil, and no call of either hook follows. Where the journal has
  the call of a hook, no entry before it has failed; the struct validator, when there
  is one, has been called before it and has returned nil, and is not called after it.
\<close>

theorem bindInput_hooks_in_order:
  assumes run: "bindInput h soda b c = (out, c')" and journal: "calls c' = calls c @ evs"
    and inp: "input b = Some t"
  shows "(\<forall>f. customizeValidate h t = Some f \<longrightarrow>
            (\<exists>u. Ran SelfValidate u (f u) \<in> set evs) \<or> (failed (last evs) \<and> phase (last evs) < 6))
       \<and> (\<forall>g. customizeValidateCtx h t = Some g \<longrightarrow>
            (\<exists>u. Ran SelfValidateCtx u (g (request c) u) \<in> set evs)
            \<or> (failed (last evs) \<and> phase (last evs) < 7))
       \<and> (customizeValidate h t = None \<longrightarrow> (\<forall>x\<in>set evs. \<not> ranStage SelfValidate x))
       \<and> (customizeValidateCtx h t = None \<longrightarrow> (\<forall>x\<in>set evs. \<not> ranStage SelfValidateCtx x))
       \<and> (\<forall>xs v r ys f. evs = xs @ Ran SelfValidateCtx v r # ys \<longrightarrow> customizeValidate h t = Some f \<longrightarrow>
            (\<exists>u w. Ran SelfValidate u (Inr w) \<in> set xs \<and> f u = Inr w)
            \<and> (\<forall>y\<in>set ys. \<not> ranStage SelfValidate y \<and> \<not> ranStage SelfValidateCtx y)
            \<and> (\<forall>x\<in>set xs. \<not> ranStage SelfValidateCtx x))
       \<and> (\<forall>xs st v r ys. evs = xs @ Ran st v r # ys \<longrightarrow> st = SelfValidate \<or> st = SelfValidateCtx \<longrightarrow>
            (\<forall>x\<in>set xs. \<not> failed x)
            \<and> (\<forall>s. validator soda = Some s \<longrightarrow> (\<exists>u w. Ran Structural u (Inr w) \<in> set xs \<and> s u = Inr w))
            \<and> (\<forall>y\<in>set ys. \<not> ranStage Structural y))"
proof -
  note sorted = journal_sorted [OF run journal]
  note ok = journal_fail_last [OF run journal]
  note jp = journal_present [OF run journal inp]
  have first: "\<forall>f. customizeValidate h t = Some f \<longrightarrow>
      (\<exists>u. Ran SelfValidate u (f u) \<in> set evs) \<or> (failed (last evs) \<and> phase (last evs) < 6)"
  proof (intro allI impI)
    fix f assume "customizeValidate h t = Some f"
    from jp [where P = "\<lambda>x. \<exists>u. x = Ran SelfValidate u (f u)"
        and Q = "\<lambda>x. phase x < 6", OF validate_present [OF this]]
    show "(\<exists>u. Ran SelfValidate u (f u) \<in> set evs) \<or> (failed (last evs) \<and> phase (last evs) < 6)"
      by auto
  qed
  have second: "\<forall>g. customizeValidateCtx h t = Some g \<longrightarrow>
      (\<exists>u. Ran SelfValidateCtx u (g (request c) u) \<in> set evs)
      \<or> (failed (last evs) \<and> phase (last evs) < 7)"
  proof (intro allI impI)
    fix g assume "customizeValidateCtx h t = Some g"
    from jp [where P = "\<lambda>x. \<exists>u. x = Ran SelfValidateCtx u (g (request c) u)"
        and Q = "\<lambda>x. phase x < 7", OF validateCtx_present [OF this]]
    show "(\<exists>u. Ran SelfValidateCtx u (g (request c) u) \<in> set evs)
        \<or> (failed (last evs) \<and> phase (last evs) < 7)"
      by auto
  qed
  have order: "\<forall>xs v r ys f. evs = xs @ Ran SelfValidateCtx v r # ys \<longrightarrow> customizeValidate h t = Some f \<longrightarrow>
      (\<exists>u w. Ran SelfValidate u (Inr w) \<in> set xs \<and> f u = Inr w)
      \<and> (\<forall>y\<in>set ys. \<not> ranStage SelfValidate y \<and> \<not> ranStage SelfValidateCtx y)
      \<and> (\<forall>x\<in>set xs. \<not> ranStage SelfValidateCtx x)"
  proof (intro allI impI)
    fix xs v r ys f
    assume split: "evs = xs @ Ran SelfValidateCtx v r # ys" and f: "customizeValidate h t = Some f"
    from first f have pres: "(\<exists>y\<in>set evs. \<exists>u. y = Ran SelfValidate u (f u))
        \<or> (failed (last evs) \<and> phase (last evs) < 6)"
      by auto
    have "\<exists>y\<in>set xs. (\<exists>u. y = Ran SelfValidate u (f u)) \<and> \<not> failed y"
      by (rule earlier_entry [where Q = "\<lambda>y. phase y < 6",
            OF sorted [unfolded split] ok [unfolded split] pres [unfolded split]]) auto
    then obtain u where u: "Ran SelfValidate u (f u) \<in> set xs" "\<not> failed (Ran SelfValidate u (f u))"
      by auto
    from u(2) obtain w where "f u = Inr w" by (cases "f u") auto
    with u(1) have a: "\<exists>u w. Ran SelfValidate u (Inr w) \<in> set xs \<and> f u = Inr w" by auto
    from split_phases [OF sorted [unfolded split]]
    have "\<forall>y\<in>set xs. phase y < 7" and "\<forall>y\<in>set ys. 7 < phase y" by simp_all
    then have "(\<forall>y\<in>set ys. \<not> ranStage SelfValidate y \<and> \<not> ranStage SelfValidateCtx y)
        \<and> (\<forall>x\<in>set xs. \<not> ranStage SelfValidateCtx x)"
      by (auto elim!: ranStage.elims)
    with a show "(\<exists>u w. Ran SelfValidate u (Inr w) \<in> set xs \<and> f u = Inr w)
      \<and> (\<forall>y\<in>set ys. \<not> ranStage SelfValidate y \<and> \<not> ranStage SelfValidateCtx y)
      \<and> (\<forall>x\<in>set xs. \<not> ranStage SelfValidateCtx x)"
      by simp
  qed
  have after: "\<forall>xs st v r ys. evs = xs @ Ran st v r # ys \<longrightarrow> st = SelfValidate \<or> st = SelfValidateCtx \<longrightarrow>
      (\<forall>x\<in>set xs. \<not> failed x)
      \<and> (\<forall>s. validator soda = Some s \<longrightarrow> (\<exists>u w. Ran Structural u (Inr w) \<in> set xs \<and> s u = Inr w))
      \<and> (\<forall>y\<in>set ys. \<not> ranStage Structural y)"
  proof (intro allI impI)
    fix xs st v r ys
    assume split: "evs = xs @ Ran st v r # ys" and st: "st = SelfValidate \<or> st = SelfValidateCtx"
    from st have ph: "5 < phase (Ran st v r)" "phase (Ran st v r) \<noteq> 1" by auto
    have a: "\<forall>x\<in>set xs. \<not> failed x"
      by (rule split_no_failure [OF ok [unfolded split]])
    have b: "\<forall>s. validator soda = Some s \<longrightarrow> (\<exists>u w. Ran Structural u (Inr w) \<in> set xs \<and> s u = Inr w)"
    proof (intro allI impI)
      fix s assume "validator soda = Some s"
      from jp [where P = "\<lambda>x. \<exists>u. x = Ran Structural u (s u)"
          and Q = "\<lambda>x. phase x < 5", OF structural_present [OF this]]
      have pres: "(\<exists>y\<in>set evs. \<exists>u. y = Ran Structural u (s u))
          \<or> (failed (last evs) \<and> phase (last evs) < 5)" .
      have "\<exists>y\<in>set xs. (\<exists>u. y = Ran Structural u (s u)) \<and> \<not> failed y"
        using ph
        by (intro earlier_entry [where Q = "\<lambda>y. phase y < 5",
              OF sorted [unfolded split] ok [unfolded split] pres [unfolded split]]) auto
      then obtain u where u: "Ran Structural u (s u) \<in> set xs" "\<not> failed (Ran Structural u (s u))"
        by auto
      from u(2) obtain w where "s u = Inr w" by (cases "s u") auto
      with u(1) show "\<exists>u w. Ran Structural u (Inr w) \<in> set xs \<and> s u = Inr w" by auto
    qed
    from split_phases(2) [OF sorted [unfolded split] ph(2)] ph(1)
    have "\<forall>y\<in>set ys. 5 < phase y" by auto
    then have "\<forall>y\<in>set ys. \<not> ranStage Structural y" by (auto elim!: ranStage.elims)
    with a b show "(\<forall>x\<in>set xs. \<not> failed x)
      \<and> (\<forall>s. validator soda = Some s \<longrightarrow> (\<exists>u w. Ran Structural u (Inr w) \<in> set xs \<and> s u = Inr w))
      \<and> (\<forall>y\<in>set ys. \<not> ranStage Structural y)"
      by simp
  qed
  from first second journal_hook_absent(1,2) [OF run journal inp] order after
  show ?thesis by blast
qed

theorem bindInput_hooks_in_order_witness:
  "input createUser = Some 1 \<and> customizeValidate exampleHost 1 = Some notRoot
   \<and> validator validatingSoda = Some shortName
   \<and> aliceJournal = take 7 aliceJournal @ Ran SelfValidateCtx aliceInput (Inr aliceInput) # drop 8 aliceJournal
   \<and> (\<exists>u w. Ran SelfValidate u (Inr w) \<in> set (take 7 aliceJournal) \<and> notRoot u = Inr w)
   \<and> (\<exists>u w. Ran Structural u (Inr w) \<in> set (take 7 aliceJournal) \<and> shortName u = Inr w)
   \<and> list_all (\<lambda>y. \<not> ranStage SelfValidate y \<and> \<not> ranStage Structural y) (drop 8 aliceJournal)"
proof -
  have j: "calls \<lparr>request = alice, Locals = [KeyInput \<mapsto> aliceInput], calls = aliceJournal\<rparr>
             = calls (fresh alice) @ aliceJournal"
    by (simp add: fresh_def)
  have i: "input createUser = Some 1" by (simp add: createUser_def)
  have f: "customizeValidate exampleHost 1 = Some notRoot" by (simp add: exampleHost_def)
  have s: "validator validatingSoda = Some shortName" by (simp add: validatingSoda_def)
  have split: "aliceJournal
      = take 7 aliceJournal @ Ran SelfValidateCtx aliceInput (Inr aliceInput) # drop 8 aliceJournal"
    by (simp add: aliceJournal_def)
  note all = bindInput_hooks_in_order [OF run_alice j i]
  note order = all [THEN conjunct2, THEN conjunct2, THEN conjunct2, THEN conjunct2, THEN conjunct1,
      rule_format, OF split f]
  note after = all [THEN conjunct2, THEN conjunct2, THEN conjunct2, THEN conjunct2, THEN conjunct2,
      rule_format, OF split disjI2 [OF refl]]
  from order after i f s split show ?thesis
    by (simp add: list_all_iff)
qed

text \<open>
  C7. Without a struct validator (\<open>op.soda.validator == nil\<close>) no call of
  \<open>validator.Struct\<close> is in the journal. With one, the call is made unless the run has
  failed before it. Where the journal has the call, it is on the input as the entries
  before it left it; those entries are the binding, complete and without a failure
  (every parameter parser has returned nil and, when the builder names a body field,
  the body has been assigned); neither hook is among them; everything after the call
  is a later step of the pipeline; and the answer entered is the validator's.
\<close>

theorem bindInput_structural_validation:
  assumes run: "bindInput h soda b c = (out, c')" and journal: "calls c' = calls c @ evs"
    and inp: "input b = Some t"
  shows "(validator soda = None \<longrightarrow> (\<forall>x\<in>set evs. \<not> ranStage Structural x))
       \<and> (\<forall>s. validator soda = Some s \<longrightarrow>
            (\<exists>u. Ran Structural u (s u) \<in> set evs) \<or> (failed (last evs) \<and> phase (last evs) < 5))
       \<and> (\<forall>xs v r ys. evs = xs @ Ran Structural v r # ys \<longrightarrow>
            v = instanceFrom (New h t) xs
            \<and> (\<forall>s. validator soda = Some s \<longrightarrow> r = s v)
            \<and> (\<forall>x\<in>set xs. \<not> failed x \<and> \<not> ranStage SelfValidate x \<and> \<not> ranStage SelfValidateCtx x)
            \<and> (\<forall>j<length (parameterParsers h).
                  \<exists>u w. Ran (Parameter j) u (Inr w) \<in> set xs \<and> (parameterParsers h ! j) (request c) u = Inr w)
            \<and> (inputBodyField b \<noteq> [] \<longrightarrow> (\<exists>u y w. Assign u (inputBodyField b) y w \<in> set xs))
            \<and> (\<forall>y\<in>set ys. 5 < phase y))"
proof -
  note sorted = journal_sorted [OF run journal]
  note ok = journal_fail_last [OF run journal]
  note jp = journal_present [OF run journal inp]
  have present: "\<forall>s. validator soda = Some s \<longrightarrow>
      (\<exists>u. Ran Structural u (s u) \<in> set evs) \<or> (failed (last evs) \<and> phase (last evs) < 5)"
  proof (intro allI impI)
    fix s assume "validator soda = Some s"
    from jp [where P = "\<lambda>x. \<exists>u. x = Ran Structural u (s u)"
        and Q = "\<lambda>x. phase x < 5", OF structural_present [OF this]]
    show "(\<exists>u. Ran Structural u (s u) \<in> set evs) \<or> (failed (last evs) \<and> phase (last evs) < 5)"
      by auto
  qed
  have call: "\<forall>xs v r ys. evs = xs @ Ran Structural v r # ys \<longrightarrow>
      v = instanceFrom (New h t) xs
      \<and> (\<forall>s. validator soda = Some s \<longrightarrow> r = s v)
      \<and> (\<forall>x\<in>set xs. \<not> failed x \<and> \<not> ranStage SelfValidate x \<and> \<not> ranStage SelfValidateCtx x)
      \<and> (\<forall>j<length (parameterParsers h).
            \<exists>u w. Ran (Parameter j) u (Inr w) \<in> set xs \<and> (parameterParsers h ! j) (request c) u = Inr w)
      \<and> (inputBodyField b \<noteq> [] \<longrightarrow> (\<exists>u y w. Assign u (inputBodyField b) y w \<in> set xs))
      \<and> (\<forall>y\<in>set ys. 5 < phase y)"
  proof (intro allI impI)
    fix xs v r ys
    assume split: "evs = xs @ Ran Structural v r # ys"
    note sorted' = sorted [unfolded split] and ok' = ok [unfolded split]
    from journal_flows [OF run journal, of "New h t"] split
    have a: "v = instanceFrom (New h t) xs" by (auto dest: flows_split)
    from journal_honest [OF run journal] split
    have b: "\<forall>s. validator soda = Some s \<longrightarrow> r = s v" by auto
    from split_phases [OF sorted'] have ph: "\<forall>y\<in>set xs. phase y < 5" "\<forall>y\<in>set ys. 5 < phase y"
      by simp_all
    from ph(1) split_no_failure [OF ok']
    have c: "\<forall>x\<in>set xs. \<not> failed x \<and> \<not> ranStage SelfValidate x \<and> \<not> ranStage SelfValidateCtx x"
      by (auto elim!: ranStage.elims)
    have d: "\<forall>j<length (parameterParsers h).
        \<exists>u w. Ran (Parameter j) u (Inr w) \<in> set xs \<and> (parameterParsers h ! j) (request c) u = Inr w"
    proof (intro allI impI)
      fix j assume "j < length (parameterParsers h)"
      note pres = jp [where P = "\<lambda>x. \<exists>u. x = Ran (Parameter j) u ((parameterParsers h ! j) (request c) u)"
          and Q = "\<lambda>x. phase x = 1 \<and> parserIndex x < j", OF parser_present [OF this]]
      have "\<exists>y\<in>set xs. (\<exists>u. y = Ran (Parameter j) u ((parameterParsers h ! j) (request c) u))
          \<and> \<not> failed y"
        by (rule earlier_entry [where Q = "\<lambda>x. phase x = 1 \<and> parserIndex x < j",
              OF sorted' ok' pres [unfolded split]]) auto
      then obtain u where u: "Ran (Parameter j) u ((parameterParsers h ! j) (request c) u) \<in> set xs"
        "\<not> failed (Ran (Parameter j) u ((parameterParsers h ! j) (request c) u))"
        by auto
      from u(2) obtain w where "(parameterParsers h ! j) (request c) u = Inr w"
        by (cases "(parameterParsers h ! j) (request c) u") auto
      with u(1) show "\<exists>u w. Ran (Parameter j) u (Inr w) \<in> set xs
          \<and> (parameterParsers h ! j) (request c) u = Inr w"
        by auto
    qed
    have e: "inputBodyField b \<noteq> [] \<longrightarrow> (\<exists>u y w. Assign u (inputBodyField b) y w \<in> set xs)"
    proof
      assume "inputBodyField b \<noteq> []"
      note pres = jp [where P = "\<lambda>x. \<exists>u y w. x = Assign u (inputBodyField b) y w"
          and Q = "\<lambda>x. phase x < 5", OF assign_present [OF this]]
      have "\<exists>y\<in>set xs. (\<exists>u x w. y = Assign u (inputBodyField b) x w) \<and> \<not> failed y"
        by (rule earlier_entry [where Q = "\<lambda>x. phase x < 5",
              OF sorted' ok' pres [unfolded split]]) auto
      then show "\<exists>u y w. Assign u (inputBodyField b) y w \<in> set xs" by auto
    qed
    from a b c d e ph(2) show "v = instanceFrom (New h t) xs
      \<and> (\<forall>s. validator soda = Some s \<longrightarrow> r = s v)
      \<and> (\<forall>x\<in>set xs. \<not> failed x \<and> \<not> ranStage SelfValidate x \<and> \<not> ranStage SelfValidateCtx x)
      \<and> (\<forall>j<length (parameterParsers h).
            \<exists>u w. Ran (Parameter j) u (Inr w) \<in> set xs \<and> (parameterParsers h ! j) (request c) u = Inr w)
      \<and> (inputBodyField b \<noteq> [] \<longrightarrow> (\<exists>u y w. Assign u (inputBodyField b) y w \<in> set xs))
      \<and> (\<forall>y\<in>set ys. 5 < phase y)"
      by blast
  qed
  from journal_hook_absent(3) [OF run journal inp] present call show ?thesis by blast
qed

theorem bindInput_structural_validation_witness:
  "input createUser = Some 1 \<and> validator validatingSoda = Some shortName
   \<and> aliceJournal = take 5 aliceJournal @ Ran Structural aliceInput (Inr aliceInput) # drop 6 aliceJournal
   \<and> aliceInput = instanceFrom (New exampleHost 1) (take 5 aliceJournal)
   \<and> Inr aliceInput = shortName aliceInput
   \<and> (\<exists>u y w. Assign u (inputBodyField createUser) y w \<in> set (take 5 aliceJournal))
   \<and> list_all (\<lambda>y. 5 < phase y) (drop 6 aliceJournal)"
proof -
  have j: "calls \<lparr>request = alice, Locals = [KeyInput \<mapsto> aliceInput], calls = aliceJournal\<rparr>
             = calls (fresh alice) @ aliceJournal"
    by (simp add: fresh_def)
  have i: "input createUser = Some 1" by (simp add: createUser_def)
  have s: "validator validatingSoda = Some shortName" by (simp add: validatingSoda_def)
  have n: "inputBodyField createUser \<noteq> []" by (simp add: createUser_def)
  have split: "aliceJournal
      = take 5 aliceJournal @ Ran Structural aliceInput (Inr aliceInput) # drop 6 aliceJournal"
    by (simp add: aliceJournal_def)
  note call = bindInput_structural_validation [OF run_alice j i, THEN conjunct2, THEN conjunct2,
      rule_format, OF split]
  from call i s n split show ?thesis
    by (simp add: list_all_iff)
qed




end
